theory Spec2Isabelle
  imports Complex_Main "HOL-Library.Multiset"
begin

section \<open>Capacity manager: \<open>_is_prime\<close> and \<open>_next_prime\<close>\<close>

text \<open>
  Both source files (\<open>hash_map_oa.py\<close>, \<open>hash_map_sc.py\<close>) carry the same two
  functions, so they are embedded once. Python integers are unbounded: \<open>int\<close>.
  Python's \<open>%\<close> is floor-mod, as is HOL's \<open>mod\<close> on \<open>int\<close> (for a positive
  divisor the result is never negative; \<open>-3 mod 2 = 1\<close> in both).

  The trial-division loop of \<open>_is_prime\<close>:
  \<^verbatim>\<open>
      factor = 3
      while factor ** 2 <= capacity:
          if capacity % factor == 0:
              return False
          factor += 2
      return True
  \<close>
  \<open>factor\<close> only takes the values 3, 5, 7, ... there, so the division by zero that
  \<open>capacity % 0\<close> would raise in Python is never reached.
\<close>

lemma int_le_square: "(f::int) \<le> f ^ 2"
proof (cases "f \<le> 0")
  case True
  have "0 \<le> f ^ 2" by simp
  with True show ?thesis by linarith
next
  case False
  then have "1 \<le> f" by simp
  then have "f * 1 \<le> f * f" by (intro mult_left_mono) auto
  then show ?thesis by (simp add: power2_eq_square)
qed

function is_prime_loop :: "int \<Rightarrow> int \<Rightarrow> bool" where
  "is_prime_loop capacity factor =
     (if factor ^ 2 \<le> capacity then
        (if capacity mod factor = 0 then False
         else is_prime_loop capacity (factor + 2))
      else True)"
  by pat_completeness auto

termination
proof (relation "measure (\<lambda>(c, f). nat (c + 1 - f))")
  show "wf (measure (\<lambda>(c, f). nat (c + 1 - f)))" by simp
next
  fix capacity factor :: int
  assume "factor ^ 2 \<le> capacity"
  with int_le_square [of factor] have "factor \<le> capacity" by linarith
  then show "((capacity, factor + 2), (capacity, factor)) \<in> measure (\<lambda>(c, f). nat (c + 1 - f))"
    by simp
qed

declare is_prime_loop.simps [simp del]

definition is_prime :: "int \<Rightarrow> bool" where
  "is_prime capacity =
     (if capacity = 2 \<or> capacity = 3 then True
      else if capacity = 1 \<or> capacity mod 2 = 0 then False
      else is_prime_loop capacity 3)"

text \<open>
  \<open>_next_prime\<close>: the loop \<open>while not self._is_prime(capacity): capacity += 2\<close> has no
  bound in the source, so it is a partial function whose value \<open>None\<close> stands for
  "never returns"; that it always returns is \<open>next_prime_total\<close> below.
\<close>

partial_function (option) next_prime_loop :: "int \<Rightarrow> int option" where
  "next_prime_loop capacity =
     (if \<not> is_prime capacity then next_prime_loop (capacity + 2) else Some capacity)"

declare next_prime_loop.simps [code]

definition next_prime :: "int \<Rightarrow> int option" where
  "next_prime capacity =
     next_prime_loop (if capacity mod 2 = 0 then capacity + 1 else capacity)"

text \<open>The mathematical notion the two functions are measured against.\<close>

definition prime_int :: "int \<Rightarrow> bool" where
  "prime_int p = (1 < p \<and> (\<forall>d \<in> {2..<p}. \<not> d dvd p))"

subsection \<open>Trial division decides primality\<close>

lemma is_prime_loop_iff:
  "0 < f \<Longrightarrow> is_prime_loop c f \<longleftrightarrow>
     (\<forall>d. f \<le> d \<and> (d - f) mod 2 = 0 \<and> d ^ 2 \<le> c \<longrightarrow> c mod d \<noteq> 0)"
proof (induction c f rule: is_prime_loop.induct)
  case (1 c f)
  show ?case
  proof (cases "f ^ 2 \<le> c")
    case False
    have "\<not> d ^ 2 \<le> c" if "f \<le> d" for d
    proof -
      from that \<open>0 < f\<close> have "f ^ 2 \<le> d ^ 2"
        by (intro power_mono) auto
      with False show ?thesis by linarith
    qed
    then have "\<forall>d. f \<le> d \<and> (d - f) mod 2 = 0 \<and> d ^ 2 \<le> c \<longrightarrow> c mod d \<noteq> 0"
      by auto
    moreover from False have "is_prime_loop c f" by (subst is_prime_loop.simps) simp
    ultimately show ?thesis by simp
  next
    case True
    show ?thesis
    proof (cases "c mod f = 0")
      case z: True
      from True z have "\<not> is_prime_loop c f" by (subst is_prime_loop.simps) simp
      moreover have "f \<le> f \<and> (f - f) mod 2 = 0 \<and> f ^ 2 \<le> c \<and> c mod f = 0"
        using True z by simp
      then have "\<not> (\<forall>d. f \<le> d \<and> (d - f) mod 2 = 0 \<and> d ^ 2 \<le> c \<longrightarrow> c mod d \<noteq> 0)"
        by (intro notI) (erule allE [of _ f], simp)
      ultimately show ?thesis by simp
    next
      case nz: False
      have ih: "is_prime_loop c (f + 2) \<longleftrightarrow>
          (\<forall>d. f + 2 \<le> d \<and> (d - (f + 2)) mod 2 = 0 \<and> d ^ 2 \<le> c \<longrightarrow> c mod d \<noteq> 0)"
        using "1.IH" [OF True nz] "1.prems" by simp
      have step: "is_prime_loop c f = is_prime_loop c (f + 2)"
        using True nz by (subst is_prime_loop.simps) simp
      have "(f \<le> d \<and> (d - f) mod 2 = 0 \<and> d ^ 2 \<le> c \<longrightarrow> c mod d \<noteq> 0) \<longleftrightarrow>
            (f + 2 \<le> d \<and> (d - (f + 2)) mod 2 = 0 \<and> d ^ 2 \<le> c \<longrightarrow> c mod d \<noteq> 0)" for d
      proof (cases "d = f")
        case True
        with nz show ?thesis by simp
      next
        case False
        have "(f \<le> d \<and> (d - f) mod 2 = 0) \<longleftrightarrow> (f + 2 \<le> d \<and> (d - (f + 2)) mod 2 = 0)"
          using False by presburger
        then show ?thesis by argo
      qed
      then show ?thesis unfolding step ih by simp
    qed
  qed
qed

lemma prime_int_odd: "prime_int p \<Longrightarrow> 2 < p \<Longrightarrow> p mod 2 = 1"
proof -
  assume p: "prime_int p" and "2 < p"
  then have "\<not> 2 dvd p" by (auto simp: prime_int_def)
  then show ?thesis by presburger
qed

lemma square_le_imp_less: "(3::int) \<le> d \<Longrightarrow> d ^ 2 \<le> n \<Longrightarrow> d < n"
proof -
  assume a: "3 \<le> d" "d ^ 2 \<le> n"
  have "d * 3 \<le> d * d" using a by (intro mult_left_mono) auto
  moreover from a have "d * d \<le> n" by (simp add: power2_eq_square)
  ultimately show ?thesis using a(1) by linarith
qed

lemma is_prime_iff_prime_int:
  assumes "1 \<le> n"
  shows "is_prime n \<longleftrightarrow> prime_int n"
proof -
  have "n = 1 \<or> n = 2 \<or> n = 3 \<or> (3 < n \<and> n mod 2 = 0) \<or> (3 < n \<and> n mod 2 = 1)"
    using assms by presburger
  then consider "n = 1" | "n = 2" | "n = 3" | "3 < n" "n mod 2 = 0" | "3 < n" "n mod 2 = 1"
    by blast
  then show ?thesis
  proof cases
    case 1 then show ?thesis by (simp add: is_prime_def prime_int_def)
  next
    case 2 then show ?thesis by (simp add: is_prime_def prime_int_def)
  next
    case 3
    have "{2..<3::int} = {2}" by auto
    with 3 show ?thesis by (simp add: is_prime_def prime_int_def)
  next
    case 4
    then have "2 \<in> {2..<n}" "2 dvd n" by auto
    then have "\<not> prime_int n" unfolding prime_int_def by blast
    with 4 show ?thesis by (simp add: is_prime_def)
  next
    case 5
    then have ip: "is_prime n \<longleftrightarrow>
        (\<forall>d. 3 \<le> d \<and> (d - 3) mod 2 = 0 \<and> d ^ 2 \<le> n \<longrightarrow> n mod d \<noteq> 0)"
      by (simp add: is_prime_def is_prime_loop_iff)
    show ?thesis
    proof
      assume pr: "prime_int n"
      have "n mod d \<noteq> 0" if "3 \<le> d" "d ^ 2 \<le> n" for d
      proof -
        from that have "d < n" by (rule square_le_imp_less)
        with that pr have "\<not> d dvd n" by (auto simp: prime_int_def)
        then show ?thesis by (simp add: dvd_eq_mod_eq_0)
      qed
      then show "is_prime n" unfolding ip by simp
    next
      assume isp: "is_prime n"
      with ip have nodiv:
        "3 \<le> d \<Longrightarrow> (d - 3) mod 2 = 0 \<Longrightarrow> d ^ 2 \<le> n \<Longrightarrow> n mod d \<noteq> 0" for d
        by simp
      have "\<not> d dvd n" if d: "d \<in> {2..<n}" for d
      proof
        assume "d dvd n"
        then obtain e where e: "n = d * e" by (auto simp: dvd_def)
        have epos: "0 < e"
        proof (rule ccontr)
          assume "\<not> 0 < e"
          then have "e \<le> 0" by simp
          moreover from d have "0 \<le> d" by simp
          ultimately have "d * e \<le> 0" by (rule mult_nonneg_nonpos [rotated])
          with e 5(1) show False by simp
        qed
        from 5(2) have "odd n" by (simp add: odd_iff_mod_2_eq_one)
        with e have "odd d" "odd e" by simp_all
        then have dodd: "d mod 2 = 1" and eodd: "e mod 2 = 1"
          by (simp_all add: odd_iff_mod_2_eq_one)
        have e1: "e \<noteq> 1" using d e by auto
        from d dodd have d3: "3 \<le> d" by (cases "d = 2") auto
        from epos eodd e1 have e3: "3 \<le> e" by presburger
        show False
        proof (cases "d \<le> e")
          case True
          then have "d * d \<le> d * e" using d3 by (intro mult_left_mono) auto
          then have "d ^ 2 \<le> n" by (simp add: e power2_eq_square)
          moreover have "(d - 3) mod 2 = 0" using dodd by presburger
          moreover have "n mod d = 0" by (simp add: e)
          ultimately show False using nodiv [of d] d3 by simp
        next
          case False
          then have "e * e \<le> d * e" using e3 by (intro mult_right_mono) auto
          then have "e ^ 2 \<le> n" by (simp add: e power2_eq_square)
          moreover have "(e - 3) mod 2 = 0" using eodd by presburger
          moreover have "n mod e = 0" by (simp add: e)
          ultimately show False using nodiv [of e] e3 by simp
        qed
      qed
      with 5 show "prime_int n" by (simp add: prime_int_def)
    qed
  qed
qed

lemma is_prime_negative_odd: "n < 0 \<Longrightarrow> n mod 2 = 1 \<Longrightarrow> is_prime n"
proof -
  assume n: "n < 0" "n mod 2 = 1"
  have "\<not> (3::int) ^ 2 \<le> n" using n by simp
  then have "is_prime_loop n 3" by (subst is_prime_loop.simps) simp
  with n show ?thesis by (simp add: is_prime_def)
qed

subsection \<open>The search for the next prime always ends\<close>

lemma prime_divisor_exists: "2 \<le> n \<Longrightarrow> \<exists>p. prime_int p \<and> p dvd n"
proof (induction "nat n" arbitrary: n rule: less_induct)
  case less
  show ?case
  proof (cases "prime_int n")
    case True
    then show ?thesis by auto
  next
    case False
    with less.prems obtain d where d: "2 \<le> d" "d < n" "d dvd n"
      by (auto simp: prime_int_def)
    then have "nat d < nat n" by simp
    from less.hyps [OF this d(1)] obtain p where "prime_int p" "p dvd d" by blast
    with d(3) have "prime_int p \<and> p dvd n" using dvd_trans by blast
    then show ?thesis ..
  qed
qed

lemma bigger_prime_int: "\<exists>p. prime_int p \<and> n < p"
proof -
  define m where "m = int (fact (nat n)) + 1"
  have "1 \<le> int (fact (nat n))" by (simp add: Suc_le_eq)
  then have "2 \<le> m" by (simp add: m_def)
  then obtain p where p: "prime_int p" "p dvd m" using prime_divisor_exists by blast
  have "n < p"
  proof (rule ccontr)
    assume "\<not> n < p"
    then have le: "p \<le> n" by simp
    from p(1) have p1: "1 < p" by (simp add: prime_int_def)
    with le have "1 \<le> nat p" "nat p \<le> nat n" by simp_all
    then have "nat p dvd fact (nat n)" by (rule dvd_fact)
    then have "int (nat p) dvd int (fact (nat n))" by (simp only: int_dvd_int_iff)
    with p1 have "p dvd int (fact (nat n))" by simp
    with p(2) have "p dvd 1" unfolding m_def by (simp add: dvd_add_right_iff)
    with p1 show False by simp
  qed
  with p(1) show ?thesis by blast
qed

lemma next_prime_loop_finds:
  "c mod 2 = 1 \<Longrightarrow> p mod 2 = 1 \<Longrightarrow> is_prime p \<Longrightarrow> c \<le> p \<Longrightarrow>
     \<exists>q. next_prime_loop c = Some q \<and> is_prime q \<and> c \<le> q \<and> q \<le> p \<and>
       (\<forall>j. c \<le> j \<and> j < q \<and> j mod 2 = 1 \<longrightarrow> \<not> is_prime j)"
proof (induction "nat (p - c)" arbitrary: c rule: less_induct)
  case less
  show ?case
  proof (cases "is_prime c")
    case True
    then have "next_prime_loop c = Some c" by (subst next_prime_loop.simps) simp
    with True less.prems show ?thesis by auto
  next
    case False
    with less.prems have "c \<noteq> p" by auto
    with less.prems have c2: "c + 2 \<le> p" by presburger
    then have "nat (p - (c + 2)) < nat (p - c)" by simp
    moreover have "(c + 2) mod 2 = 1" using less.prems(1) by presburger
    ultimately obtain q where
      q: "next_prime_loop (c + 2) = Some q" "is_prime q" "c + 2 \<le> q" "q \<le> p"
        "\<forall>j. c + 2 \<le> j \<and> j < q \<and> j mod 2 = 1 \<longrightarrow> \<not> is_prime j"
      using less.hyps [of "c + 2"] less.prems c2 by blast
    from False have "next_prime_loop c = next_prime_loop (c + 2)"
      by (subst next_prime_loop.simps) simp
    moreover have "\<forall>j. c \<le> j \<and> j < q \<and> j mod 2 = 1 \<longrightarrow> \<not> is_prime j"
    proof (intro allI impI)
      fix j assume j: "c \<le> j \<and> j < q \<and> j mod 2 = 1"
      with less.prems(1) have "j = c \<or> c + 2 \<le> j" by presburger
      with False q(5) j show "\<not> is_prime j" by blast
    qed
    ultimately show ?thesis using q(1-4) by simp
  qed
qed

lemma next_prime_loop_total:
  assumes "c mod 2 = 1"
  shows "\<exists>q. next_prime_loop c = Some q \<and> is_prime q \<and> c \<le> q \<and>
     (\<forall>j. c \<le> j \<and> j < q \<and> j mod 2 = 1 \<longrightarrow> \<not> is_prime j)"
proof -
  obtain p where p: "prime_int p" "max c 2 < p" using bigger_prime_int by blast
  then have "p mod 2 = 1" by (intro prime_int_odd) auto
  moreover from p have "is_prime p" by (subst is_prime_iff_prime_int) auto
  moreover from p have "c \<le> p" by simp
  ultimately show ?thesis using next_prime_loop_finds [OF assms, of p] by blast
qed

lemma next_prime_total:
  "\<exists>q. next_prime n = Some q \<and> is_prime q \<and> n \<le> q \<and>
     (\<forall>j. (if n mod 2 = 0 then n + 1 else n) \<le> j \<and> j < q \<and> j mod 2 = 1 \<longrightarrow> \<not> is_prime j)"
proof (cases "n mod 2 = 0")
  case True
  then have "(n + 1) mod 2 = 1" by presburger
  from next_prime_loop_total [OF this] True show ?thesis
    by (auto simp: next_prime_def)
next
  case False
  then have "n mod 2 = 1" by presburger
  from next_prime_loop_total [OF this] False show ?thesis
    by (auto simp: next_prime_def)
qed

section \<open>The collaborators imported from \<open>hash_map_include\<close>\<close>

text \<open>
  Both maps import \<open>DynamicArray\<close>, \<open>HashEntry\<close>, \<open>LinkedList\<close> and the hash functions
  from \<open>hash_map_include\<close>, a module that is not among the source files. What the maps
  need from them is fixed here, once, from the interface the specification gives them.

  The two ways a method of either map can raise: an index outside the bucket array, and
  the division or remainder by a capacity of zero (\<open>self._size / self._capacity\<close>,
  \<open>... % self._capacity\<close>). A raise is the value \<open>Inl\<close> of the result.
\<close>

datatype error = DynamicArrayException | ZeroDivisionError

text \<open>
  Modelled from the spec: the resizable sequence container, "\<open>append(item)\<close>, indexed
  read/write, \<open>length()\<close>", preserving insertion order. A \<open>DynamicArray\<close> is a HOL list;
  \<open>arr[i]\<close> is \<open>da_get\<close> and \<open>arr[i] = x\<close> is \<open>da_set\<close>. An index that is not a position
  of the array (negative, or not below the length) raises; the maps only ever index with
  the result of a \<open>mod\<close> by the capacity or with a number from \<open>range(capacity)\<close>.
\<close>

definition da_get :: "'a list \<Rightarrow> int \<Rightarrow> error + 'a" where
  "da_get arr index =
     (if 0 \<le> index \<and> index < int (length arr) then Inr (arr ! nat index)
      else Inl DynamicArrayException)"

definition da_set :: "'a list \<Rightarrow> int \<Rightarrow> 'a \<Rightarrow> error + 'a list" where
  "da_set arr index x =
     (if 0 \<le> index \<and> index < int (length arr) then Inr (arr[nat index := x])
      else Inl DynamicArrayException)"

text \<open>
  Modelled from the spec: the entry of the open-addressing map, "a (key, value,
  tombstone-flag) triple". \<open>HashEntry(key, value)\<close> builds a live entry. A slot of the
  bucket array is \<open>None\<close> or an entry, so \<open>'e option\<close>; in the conditions of the source
  (\<open>while self._buckets[index]\<close>, \<open>if bucket and ...\<close>) an entry counts as true and \<open>None\<close>
  as false.
\<close>

record ('k, 'v) hash_entry =
  entry_key :: 'k
  entry_value :: 'v
  is_tombstone :: bool

definition HashEntry :: "'k \<Rightarrow> 'v \<Rightarrow> ('k, 'v) hash_entry" where
  "HashEntry k v = \<lparr>entry_key = k, entry_value = v, is_tombstone = False\<rparr>"

section \<open>Open addressing: the model of \<open>hash_map_oa.py\<close>\<close>

text \<open>
  The object state: the four fields \<open>__init__\<close> sets. Every method takes the map and
  returns the map it leaves behind. Modelled from the spec: the hash function is "an
  opaque function" from keys to integers "supplied at construction time", so it is a field
  of function type and the theorems hold for every such function.
\<close>

record ('k, 'v) hash_map_oa =
  buckets_oa :: "('k, 'v) hash_entry option list"
  capacity_oa :: int
  hash_function_oa :: "'k \<Rightarrow> int"
  size_oa :: int

text \<open>
  \<open>__init__\<close>: \<open>self._capacity = self._next_prime(capacity)\<close>, then one \<open>None\<close> appended
  for each number of \<open>range(self._capacity)\<close>, which is empty when the capacity is not
  positive (\<open>nat\<close> of it is 0). The constructor returns whenever \<open>_next_prime\<close> does.
\<close>

definition HashMap_oa :: "int \<Rightarrow> ('k \<Rightarrow> int) \<Rightarrow> ('k, 'v) hash_map_oa option" where
  "HashMap_oa capacity hash =
     (case next_prime capacity of
        None \<Rightarrow> None
      | Some p \<Rightarrow>
          Some \<lparr>buckets_oa = replicate (nat p) None, capacity_oa = p,
                hash_function_oa = hash, size_oa = 0\<rparr>)"

text \<open>
  \<open>table_load\<close>: \<open>return self._size / self._capacity\<close>. Python computes the correctly
  rounded floating-point quotient of the two integers; the model keeps the exact quotient.
  The only use of the result is the test \<open>>= 0.5\<close> in \<open>put\<close>. Rounding is monotone and
  0.5 is a floating-point number, so an exact quotient of at least 1/2 passes the test; an
  exact quotient below 1/2 is at most \<open>1/2 - 1/(2 * capacity)\<close>, which rounds below 0.5
  for every capacity under \<open>2^53\<close>. Up to that capacity the two tests agree.
\<close>

definition table_load_oa :: "('k, 'v) hash_map_oa \<Rightarrow> error + real" where
  "table_load_oa m =
     (if capacity_oa m = 0 then Inl ZeroDivisionError
      else Inr (real_of_int (size_oa m) / real_of_int (capacity_oa m)))"

text \<open>\<open>clear\<close>: a new array of \<open>capacity\<close> times \<open>None\<close>, and size 0.\<close>

definition clear_oa :: "('k, 'v) hash_map_oa \<Rightarrow> ('k, 'v) hash_map_oa" where
  "clear_oa m = m\<lparr>buckets_oa := replicate (nat (capacity_oa m)) None, size_oa := 0\<rparr>"

text \<open>
  The test \<open>bucket and not bucket.is_tombstone\<close> that \<open>put\<close>, \<open>get\<close>, \<open>contains_key\<close>,
  \<open>remove\<close> and \<open>get_keys_and_values\<close> all make: it gives the entry when the test holds.
\<close>

definition live_entry :: "('k, 'v) hash_entry option \<Rightarrow> ('k, 'v) hash_entry option" where
  "live_entry bucket =
     (case bucket of
        None \<Rightarrow> None
      | Some entry \<Rightarrow> if \<not> is_tombstone entry then Some entry else None)"

text \<open>
  \<open>get_keys_and_values\<close>: the loop \<open>for num in range(self._capacity)\<close> over the list of
  the numbers still to visit, \<open>arr\<close> the array built so far.
\<close>

fun get_keys_and_values_loop_oa ::
  "('k, 'v) hash_entry option list \<Rightarrow> nat list \<Rightarrow> ('k \<times> 'v) list \<Rightarrow> error + ('k \<times> 'v) list"
where
  "get_keys_and_values_loop_oa bs [] arr = Inr arr"
| "get_keys_and_values_loop_oa bs (num # nums) arr =
     (case da_get bs (int num) of
        Inl e \<Rightarrow> Inl e
      | Inr bucket \<Rightarrow>
          (case live_entry bucket of
             Some entry \<Rightarrow>
               get_keys_and_values_loop_oa bs nums (arr @ [(entry_key entry, entry_value entry)])
           | None \<Rightarrow> get_keys_and_values_loop_oa bs nums arr))"

definition get_keys_and_values_oa :: "('k, 'v) hash_map_oa \<Rightarrow> error + ('k \<times> 'v) list" where
  "get_keys_and_values_oa m =
     get_keys_and_values_loop_oa (buckets_oa m) [0..<nat (capacity_oa m)] []"

text \<open>
  \<open>get_bucket_index\<close>:
  \<^verbatim>\<open>
      initial = self._hash_function(key) % self._capacity
      j, index = 1, initial
      while self._buckets[index]:
          if self._buckets[index].key == key:
              return index
          index = (initial + (j**2)) % self._capacity
          j += 1
      return index
  \<close>
  The loop has no bound, so it is a partial function: \<open>None\<close> is "never returns". The
  loop state is \<open>j\<close> and \<open>index\<close>.
\<close>

partial_function (option) get_bucket_index_loop ::
  "('k, 'v) hash_map_oa \<Rightarrow> 'k \<Rightarrow> int \<Rightarrow> int \<Rightarrow> int \<Rightarrow> (error + int) option"
where
  "get_bucket_index_loop m k initial j index =
     (case da_get (buckets_oa m) index of
        Inl e \<Rightarrow> Some (Inl e)
      | Inr None \<Rightarrow> Some (Inr index)
      | Inr (Some entry) \<Rightarrow>
          if entry_key entry = k then Some (Inr index)
          else get_bucket_index_loop m k initial (j + 1) ((initial + j ^ 2) mod capacity_oa m))"

declare get_bucket_index_loop.simps [code]

definition get_bucket_index :: "('k, 'v) hash_map_oa \<Rightarrow> 'k \<Rightarrow> (error + int) option" where
  "get_bucket_index m k =
     (if capacity_oa m = 0 then Some (Inl ZeroDivisionError)
      else let initial = hash_function_oa m k mod capacity_oa m
           in get_bucket_index_loop m k initial 1 initial)"

text \<open>
  The two lines \<open>index = self.get_bucket_index(key)\<close>, \<open>bucket = self._buckets[index]\<close>
  that open \<open>put\<close> (after its load check), \<open>get\<close>, \<open>contains_key\<close> and \<open>remove\<close>.
\<close>

definition find_bucket_oa ::
  "('k, 'v) hash_map_oa \<Rightarrow> 'k \<Rightarrow> (error + int \<times> ('k, 'v) hash_entry option) option" where
  "find_bucket_oa m k =
     (case get_bucket_index m k of
        None \<Rightarrow> None
      | Some (Inl e) \<Rightarrow> Some (Inl e)
      | Some (Inr index) \<Rightarrow>
          (case da_get (buckets_oa m) index of
             Inl e \<Rightarrow> Some (Inl e)
           | Inr bucket \<Rightarrow> Some (Inr (index, bucket))))"

text \<open>
  The part of \<open>put\<close> after the load check:
  \<^verbatim>\<open>
      if bucket and not bucket.is_tombstone:
          bucket.value = value
      else:
          self._buckets[index] = HashEntry(key, value)
          self._size += 1
  \<close>
  \<open>bucket.value = value\<close> mutates the entry object held in slot \<open>index\<close>, which no other
  slot shares: the slot gets the entry with the new value.
\<close>

definition put_entry_oa ::
  "('k, 'v) hash_map_oa \<Rightarrow> 'k \<Rightarrow> 'v \<Rightarrow> (error + ('k, 'v) hash_map_oa) option" where
  "put_entry_oa m k v =
     (case find_bucket_oa m k of
        None \<Rightarrow> None
      | Some (Inl e) \<Rightarrow> Some (Inl e)
      | Some (Inr (index, bucket)) \<Rightarrow>
          (case live_entry bucket of
             Some entry \<Rightarrow>
               Some (Inr (m\<lparr>buckets_oa :=
                  (buckets_oa m)[nat index := Some (entry\<lparr>entry_value := v\<rparr>)]\<rparr>))
           | None \<Rightarrow>
               (case da_set (buckets_oa m) index (Some (HashEntry k v)) of
                  Inl e \<Rightarrow> Some (Inl e)
                | Inr bs \<Rightarrow> Some (Inr (m\<lparr>buckets_oa := bs, size_oa := size_oa m + 1\<rparr>)))))"

text \<open>
  \<open>put\<close> calls \<open>resize_table\<close> when the load is at least 0.5, and \<open>resize_table\<close> calls
  \<open>put\<close> for every saved pair: the two methods are mutually recursive, and nothing in
  the source bounds the recursion. They are embedded as one partial function over the
  three kinds of call: \<open>put\<close>, \<open>resize_table\<close>, and the reinsertion loop
  \<open>for num in range(key_val_arr.length())\<close> at the end of \<open>resize_table\<close>.
\<close>

datatype ('k, 'v) oa_call =
    CallPut "('k, 'v) hash_map_oa" 'k 'v
  | CallResize "('k, 'v) hash_map_oa" int
  | CallReinsert "('k, 'v) hash_map_oa" "('k \<times> 'v) list"

partial_function (option) oa_run ::
  "('k, 'v) oa_call \<Rightarrow> (error + ('k, 'v) hash_map_oa) option"
where
  "oa_run call =
     (case call of
        CallPut m k v \<Rightarrow>
          (case table_load_oa m of
             Inl e \<Rightarrow> Some (Inl e)
           | Inr load \<Rightarrow>
               Option.bind
                 (if load \<ge> 1 / 2 then oa_run (CallResize m (capacity_oa m * 2))
                  else Some (Inr m))
                 (\<lambda>r. case r of Inl e \<Rightarrow> Some (Inl e) | Inr m1 \<Rightarrow> put_entry_oa m1 k v))
      | CallResize m new_capacity \<Rightarrow>
          (if new_capacity < size_oa m then Some (Inr m)
           else
             Option.bind
               (if \<not> is_prime new_capacity then next_prime new_capacity
                else Some new_capacity)
               (\<lambda>new_capacity.
                  case get_keys_and_values_oa m of
                    Inl e \<Rightarrow> Some (Inl e)
                  | Inr key_val_arr \<Rightarrow>
                      oa_run (CallReinsert (clear_oa (m\<lparr>capacity_oa := new_capacity\<rparr>))
                                key_val_arr)))
      | CallReinsert m key_val_arr \<Rightarrow>
          (case key_val_arr of
             [] \<Rightarrow> Some (Inr m)
           | (k, v) # rest \<Rightarrow>
               Option.bind (oa_run (CallPut m k v))
                 (\<lambda>r. case r of Inl e \<Rightarrow> Some (Inl e)
                       | Inr m1 \<Rightarrow> oa_run (CallReinsert m1 rest))))"

definition put_oa ::
  "('k, 'v) hash_map_oa \<Rightarrow> 'k \<Rightarrow> 'v \<Rightarrow> (error + ('k, 'v) hash_map_oa) option" where
  "put_oa m k v = oa_run (CallPut m k v)"

definition resize_table_oa ::
  "('k, 'v) hash_map_oa \<Rightarrow> int \<Rightarrow> (error + ('k, 'v) hash_map_oa) option" where
  "resize_table_oa m new_capacity = oa_run (CallResize m new_capacity)"

definition reinsert_oa ::
  "('k, 'v) hash_map_oa \<Rightarrow> ('k \<times> 'v) list \<Rightarrow> (error + ('k, 'v) hash_map_oa) option" where
  "reinsert_oa m key_val_arr = oa_run (CallReinsert m key_val_arr)"

text \<open>The three methods as the source writes them, each in terms of the others.\<close>

lemma put_oa_unfold:
  "put_oa m k v =
     (case table_load_oa m of
        Inl e \<Rightarrow> Some (Inl e)
      | Inr load \<Rightarrow>
          (case (if load \<ge> 1 / 2 then resize_table_oa m (capacity_oa m * 2) else Some (Inr m)) of
             None \<Rightarrow> None
           | Some (Inl e) \<Rightarrow> Some (Inl e)
           | Some (Inr m1) \<Rightarrow> put_entry_oa m1 k v))"
  unfolding put_oa_def resize_table_oa_def
  by (subst oa_run.simps) (simp split: sum.splits option.splits bind_splits)

lemma resize_table_oa_unfold:
  "resize_table_oa m new_capacity =
     (if new_capacity < size_oa m then Some (Inr m)
      else
        (case (if \<not> is_prime new_capacity then next_prime new_capacity else Some new_capacity) of
           None \<Rightarrow> None
         | Some new_capacity \<Rightarrow>
            (case get_keys_and_values_oa m of
               Inl e \<Rightarrow> Some (Inl e)
             | Inr key_val_arr \<Rightarrow>
                 reinsert_oa (clear_oa (m\<lparr>capacity_oa := new_capacity\<rparr>)) key_val_arr)))"
  unfolding reinsert_oa_def resize_table_oa_def
  by (subst oa_run.simps) (simp split: sum.splits option.splits bind_splits)

lemma reinsert_oa_Nil: "reinsert_oa m [] = Some (Inr m)"
  unfolding reinsert_oa_def by (subst oa_run.simps) simp

lemma reinsert_oa_Cons:
  "reinsert_oa m ((k, v) # rest) =
     (case put_oa m k v of
        None \<Rightarrow> None
      | Some (Inl e) \<Rightarrow> Some (Inl e)
      | Some (Inr m1) \<Rightarrow> reinsert_oa m1 rest)"
  unfolding reinsert_oa_def put_oa_def
  by (subst oa_run.simps) (simp split: sum.splits option.splits bind_splits)

declare put_oa_unfold [code] resize_table_oa_unfold [code]
  reinsert_oa_Nil [code] reinsert_oa_Cons [code]

text \<open>\<open>get\<close>: the value of the live entry found, or \<open>None\<close>.\<close>

definition get_oa :: "('k, 'v) hash_map_oa \<Rightarrow> 'k \<Rightarrow> (error + 'v option) option" where
  "get_oa m k =
     (case find_bucket_oa m k of
        None \<Rightarrow> None
      | Some (Inl e) \<Rightarrow> Some (Inl e)
      | Some (Inr (index, bucket)) \<Rightarrow>
          (case live_entry bucket of
             Some entry \<Rightarrow> Some (Inr (Some (entry_value entry)))
           | None \<Rightarrow> Some (Inr None)))"

text \<open>\<open>contains_key\<close>: \<open>False\<close> at once when the size is 0, without probing.\<close>

definition contains_key_oa :: "('k, 'v) hash_map_oa \<Rightarrow> 'k \<Rightarrow> (error + bool) option" where
  "contains_key_oa m k =
     (if size_oa m = 0 then Some (Inr False)
      else
        (case find_bucket_oa m k of
           None \<Rightarrow> None
         | Some (Inl e) \<Rightarrow> Some (Inl e)
         | Some (Inr (index, bucket)) \<Rightarrow>
             (case live_entry bucket of
                Some entry \<Rightarrow> Some (Inr True)
              | None \<Rightarrow> Some (Inr False))))"

text \<open>
  \<open>remove\<close>: \<open>bucket.is_tombstone = True\<close> and \<open>self._size -= 1\<close> when the entry found
  is live; the entry stays in its slot.
\<close>

definition remove_oa ::
  "('k, 'v) hash_map_oa \<Rightarrow> 'k \<Rightarrow> (error + ('k, 'v) hash_map_oa) option" where
  "remove_oa m k =
     (case find_bucket_oa m k of
        None \<Rightarrow> None
      | Some (Inl e) \<Rightarrow> Some (Inl e)
      | Some (Inr (index, bucket)) \<Rightarrow>
          (case live_entry bucket of
             Some entry \<Rightarrow>
               Some (Inr (m\<lparr>buckets_oa :=
                    (buckets_oa m)[nat index := Some (entry\<lparr>is_tombstone := True\<rparr>)],
                  size_oa := size_oa m - 1\<rparr>))
           | None \<Rightarrow> Some (Inr m)))"

text \<open>
  A client's calls, to speak of the states a map can reach. \<open>get\<close> and \<open>contains_key\<close>
  leave the map as it is, but they can raise or fail to return as the others can.
\<close>

datatype ('k, 'v) operation =
    Put 'k 'v | Get 'k | ContainsKey 'k | Remove 'k | Clear | ResizeTable int

definition keep ::
  "'s \<Rightarrow> (error + 'a) option \<Rightarrow> (error + 's) option" where
  "keep m r = (case r of None \<Rightarrow> None | Some (Inl e) \<Rightarrow> Some (Inl e) | Some (Inr _) \<Rightarrow> Some (Inr m))"

definition step_oa ::
  "('k, 'v) hash_map_oa \<Rightarrow> ('k, 'v) operation \<Rightarrow> (error + ('k, 'v) hash_map_oa) option" where
  "step_oa m operation =
     (case operation of
        Put k v \<Rightarrow> put_oa m k v
      | Get k \<Rightarrow> keep m (get_oa m k)
      | ContainsKey k \<Rightarrow> keep m (contains_key_oa m k)
      | Remove k \<Rightarrow> remove_oa m k
      | Clear \<Rightarrow> Some (Inr (clear_oa m))
      | ResizeTable new_capacity \<Rightarrow> resize_table_oa m new_capacity)"

fun exec_oa ::
  "('k, 'v) hash_map_oa \<Rightarrow> ('k, 'v) operation list \<Rightarrow> (error + ('k, 'v) hash_map_oa) option" where
  "exec_oa m [] = Some (Inr m)"
| "exec_oa m (operation # operations) =
     (case step_oa m operation of
        None \<Rightarrow> None
      | Some (Inl e) \<Rightarrow> Some (Inl e)
      | Some (Inr m1) \<Rightarrow> exec_oa m1 operations)"

text \<open>
  A hash function to run the maps on concrete inputs: the sum of the character codes
  (\<open>''a''\<close> is 97, \<open>''b''\<close> 98, \<open>''c''\<close> 99, \<open>''d''\<close> 100, \<open>''x''\<close> 120). No theorem about all
  maps depends on it.
\<close>

definition example_hash :: "string \<Rightarrow> int" where
  "example_hash s = sum_list (map of_char s)"

section \<open>Separate chaining: the model of \<open>hash_map_sc.py\<close>\<close>

text \<open>
  Modelled from the spec: the chain container, which "supports membership test by key,
  insert, remove-by-key, and forward iteration yielding (key, value) pairs". A
  \<open>LinkedList\<close> is the list of its nodes' pairs in iteration order.
  \<open>contains(key)\<close> gives the first node with that key, or \<open>None\<close>; \<open>insert(key, value)\<close>
  adds one node (\<open>put\<close> "appends a new node to the chain"); \<open>remove(key)\<close> unlinks the first
  node with that key and says whether there was one. \<open>node.value = value\<close> on the node
  that \<open>contains\<close> returned is \<open>ll_set_value\<close>.
\<close>

type_synonym ('k, 'v) linked_list = "('k \<times> 'v) list"

definition ll_contains :: "('k, 'v) linked_list \<Rightarrow> 'k \<Rightarrow> ('k \<times> 'v) option" where
  "ll_contains chain k = find (\<lambda>node. fst node = k) chain"

definition ll_insert :: "('k, 'v) linked_list \<Rightarrow> 'k \<Rightarrow> 'v \<Rightarrow> ('k, 'v) linked_list" where
  "ll_insert chain k v = chain @ [(k, v)]"

fun ll_remove :: "('k, 'v) linked_list \<Rightarrow> 'k \<Rightarrow> ('k, 'v) linked_list \<times> bool" where
  "ll_remove [] k = ([], False)"
| "ll_remove (node # rest) k =
     (if fst node = k then (rest, True)
      else (case ll_remove rest k of (rest', found) \<Rightarrow> (node # rest', found)))"

fun ll_set_value :: "('k, 'v) linked_list \<Rightarrow> 'k \<Rightarrow> 'v \<Rightarrow> ('k, 'v) linked_list" where
  "ll_set_value [] k v = []"
| "ll_set_value (node # rest) k v =
     (if fst node = k then (fst node, v) # rest else node # ll_set_value rest k v)"

record ('k, 'v) hash_map_sc =
  buckets_sc :: "('k, 'v) linked_list list"
  capacity_sc :: int
  hash_function_sc :: "'k \<Rightarrow> int"
  size_sc :: int

text \<open>\<open>__init__\<close>: as for open addressing, with an empty \<open>LinkedList\<close> in each bucket.\<close>

definition HashMap_sc :: "int \<Rightarrow> ('k \<Rightarrow> int) \<Rightarrow> ('k, 'v) hash_map_sc option" where
  "HashMap_sc capacity hash =
     (case next_prime capacity of
        None \<Rightarrow> None
      | Some p \<Rightarrow>
          Some \<lparr>buckets_sc = replicate (nat p) [], capacity_sc = p,
                hash_function_sc = hash, size_sc = 0\<rparr>)"

text \<open>
  The two lines \<open>index = self._hash_function(key) % self._capacity\<close>,
  \<open>bucket = self._buckets[index]\<close> that open \<open>put\<close>, \<open>get\<close>, \<open>contains_key\<close> and \<open>remove\<close>.
\<close>

definition find_chain_sc ::
  "('k, 'v) hash_map_sc \<Rightarrow> 'k \<Rightarrow> error + int \<times> ('k, 'v) linked_list" where
  "find_chain_sc m k =
     (if capacity_sc m = 0 then Inl ZeroDivisionError
      else
        (let index = hash_function_sc m k mod capacity_sc m in
         case da_get (buckets_sc m) index of
           Inl e \<Rightarrow> Inl e
         | Inr bucket \<Rightarrow> Inr (index, bucket)))"

text \<open>
  \<open>put\<close>: there is no load check and no call of \<open>resize_table\<close> here, so the method
  always returns. The chain object is mutated in place: bucket \<open>index\<close> gets the new chain.
\<close>

definition put_sc :: "('k, 'v) hash_map_sc \<Rightarrow> 'k \<Rightarrow> 'v \<Rightarrow> error + ('k, 'v) hash_map_sc" where
  "put_sc m k v =
     (case find_chain_sc m k of
        Inl e \<Rightarrow> Inl e
      | Inr (index, bucket) \<Rightarrow>
          (case ll_contains bucket k of
             Some node \<Rightarrow>
               Inr (m\<lparr>buckets_sc := (buckets_sc m)[nat index := ll_set_value bucket k v]\<rparr>)
           | None \<Rightarrow>
               Inr (m\<lparr>buckets_sc := (buckets_sc m)[nat index := ll_insert bucket k v],
                      size_sc := size_sc m + 1\<rparr>)))"

definition clear_sc :: "('k, 'v) hash_map_sc \<Rightarrow> ('k, 'v) hash_map_sc" where
  "clear_sc m = m\<lparr>buckets_sc := replicate (nat (capacity_sc m)) [], size_sc := 0\<rparr>"

text \<open>
  \<open>get_keys_and_values\<close>: for each bucket in turn, every node's pair is appended.
\<close>

fun get_keys_and_values_loop_sc ::
  "('k, 'v) linked_list list \<Rightarrow> nat list \<Rightarrow> ('k \<times> 'v) list \<Rightarrow> error + ('k \<times> 'v) list"
where
  "get_keys_and_values_loop_sc bs [] arr = Inr arr"
| "get_keys_and_values_loop_sc bs (num # nums) arr =
     (case da_get bs (int num) of
        Inl e \<Rightarrow> Inl e
      | Inr bucket \<Rightarrow> get_keys_and_values_loop_sc bs nums (arr @ bucket))"

definition get_keys_and_values_sc :: "('k, 'v) hash_map_sc \<Rightarrow> error + ('k \<times> 'v) list" where
  "get_keys_and_values_sc m =
     get_keys_and_values_loop_sc (buckets_sc m) [0..<nat (capacity_sc m)] []"

text \<open>
  \<open>resize_table\<close>: the guard is \<open>new_capacity < 1\<close>; the one unbounded loop it can reach
  is that of \<open>_next_prime\<close>, hence the \<open>option\<close>. \<open>reinsert_sc\<close> is its last loop.
\<close>

fun reinsert_sc ::
  "('k, 'v) hash_map_sc \<Rightarrow> ('k \<times> 'v) list \<Rightarrow> error + ('k, 'v) hash_map_sc" where
  "reinsert_sc m [] = Inr m"
| "reinsert_sc m ((k, v) # rest) =
     (case put_sc m k v of Inl e \<Rightarrow> Inl e | Inr m1 \<Rightarrow> reinsert_sc m1 rest)"

definition resize_table_sc ::
  "('k, 'v) hash_map_sc \<Rightarrow> int \<Rightarrow> (error + ('k, 'v) hash_map_sc) option" where
  "resize_table_sc m new_capacity =
     (if new_capacity < 1 then Some (Inr m)
      else
        (case (if \<not> is_prime new_capacity then next_prime new_capacity
               else Some new_capacity) of
           None \<Rightarrow> None
         | Some new_capacity \<Rightarrow>
             (case get_keys_and_values_sc m of
                Inl e \<Rightarrow> Some (Inl e)
              | Inr key_val_arr \<Rightarrow>
                  Some (reinsert_sc (clear_sc (m\<lparr>capacity_sc := new_capacity\<rparr>)) key_val_arr))))"

definition get_sc :: "('k, 'v) hash_map_sc \<Rightarrow> 'k \<Rightarrow> error + 'v option" where
  "get_sc m k =
     (case find_chain_sc m k of
        Inl e \<Rightarrow> Inl e
      | Inr (index, bucket) \<Rightarrow>
          (case ll_contains bucket k of
             Some node \<Rightarrow> Inr (Some (snd node))
           | None \<Rightarrow> Inr None))"

definition contains_key_sc :: "('k, 'v) hash_map_sc \<Rightarrow> 'k \<Rightarrow> error + bool" where
  "contains_key_sc m k =
     (case find_chain_sc m k of
        Inl e \<Rightarrow> Inl e
      | Inr (index, bucket) \<Rightarrow> Inr (ll_contains bucket k \<noteq> None))"

definition remove_sc :: "('k, 'v) hash_map_sc \<Rightarrow> 'k \<Rightarrow> error + ('k, 'v) hash_map_sc" where
  "remove_sc m k =
     (case find_chain_sc m k of
        Inl e \<Rightarrow> Inl e
      | Inr (index, bucket) \<Rightarrow>
          (case ll_remove bucket k of
             (bucket', True) \<Rightarrow>
               Inr (m\<lparr>buckets_sc := (buckets_sc m)[nat index := bucket'],
                      size_sc := size_sc m - 1\<rparr>)
           | (bucket', False) \<Rightarrow> Inr m))"

definition step_sc ::
  "('k, 'v) hash_map_sc \<Rightarrow> ('k, 'v) operation \<Rightarrow> (error + ('k, 'v) hash_map_sc) option" where
  "step_sc m operation =
     (case operation of
        Put k v \<Rightarrow> Some (put_sc m k v)
      | Get k \<Rightarrow> keep m (Some (get_sc m k))
      | ContainsKey k \<Rightarrow> keep m (Some (contains_key_sc m k))
      | Remove k \<Rightarrow> Some (remove_sc m k)
      | Clear \<Rightarrow> Some (Inr (clear_sc m))
      | ResizeTable new_capacity \<Rightarrow> resize_table_sc m new_capacity)"

fun exec_sc ::
  "('k, 'v) hash_map_sc \<Rightarrow> ('k, 'v) operation list \<Rightarrow> (error + ('k, 'v) hash_map_sc) option" where
  "exec_sc m [] = Some (Inr m)"
| "exec_sc m (operation # operations) =
     (case step_sc m operation of
        None \<Rightarrow> None
      | Some (Inl e) \<Rightarrow> Some (Inl e)
      | Some (Inr m1) \<Rightarrow> exec_sc m1 operations)"

section \<open>Quadratic probing\<close>

definition shape_ok :: "('k, 'v) hash_map_oa \<Rightarrow> bool" where
  "shape_ok m \<longleftrightarrow> 0 < capacity_oa m \<and> length (buckets_oa m) = nat (capacity_oa m)"

definition probe_index :: "('k, 'v) hash_map_oa \<Rightarrow> 'k \<Rightarrow> nat \<Rightarrow> int" where
  "probe_index m k n =
     (hash_function_oa m k mod capacity_oa m + int n ^ 2) mod capacity_oa m"

definition stops :: "('k, 'v) hash_map_oa \<Rightarrow> 'k \<Rightarrow> int \<Rightarrow> bool" where
  "stops m k i =
     (case buckets_oa m ! nat i of None \<Rightarrow> True | Some entry \<Rightarrow> entry_key entry = k)"

definition first_stop :: "('k, 'v) hash_map_oa \<Rightarrow> 'k \<Rightarrow> nat \<Rightarrow> bool" where
  "first_stop m k n \<longleftrightarrow>
     stops m k (probe_index m k n) \<and> (\<forall>j<n. \<not> stops m k (probe_index m k j))"

lemma probe_index_range:
  "shape_ok m \<Longrightarrow> 0 \<le> probe_index m k n \<and> probe_index m k n < int (length (buckets_oa m))"
  by (simp add: shape_ok_def probe_index_def)

lemma probe_index_0: "shape_ok m \<Longrightarrow> probe_index m k 0 = hash_function_oa m k mod capacity_oa m"
  by (simp add: probe_index_def)

lemma da_get_probe:
  "shape_ok m \<Longrightarrow> da_get (buckets_oa m) (probe_index m k n) = Inr (buckets_oa m ! nat (probe_index m k n))"
  using probe_index_range [of m k n] by (simp add: da_get_def)

lemma loop_at_stop:
  assumes "shape_ok m" "stops m k (probe_index m k t)"
  shows "get_bucket_index_loop m k initial j (probe_index m k t) = Some (Inr (probe_index m k t))"
  using assms(2)
  by (subst get_bucket_index_loop.simps)
     (simp add: da_get_probe [OF assms(1)] stops_def split: option.splits)

lemma loop_at_nonstop:
  assumes "shape_ok m" "\<not> stops m k (probe_index m k t)"
  shows "get_bucket_index_loop m k (hash_function_oa m k mod capacity_oa m) (int t + 1) (probe_index m k t)
     = get_bucket_index_loop m k (hash_function_oa m k mod capacity_oa m) (int (Suc t) + 1) (probe_index m k (Suc t))"
proof -
  have "(hash_function_oa m k mod capacity_oa m + (int t + 1) ^ 2) mod capacity_oa m
      = probe_index m k (Suc t)"
    by (simp add: probe_index_def add.commute)
  with assms(2) show ?thesis
    by (subst get_bucket_index_loop.simps)
       (simp add: da_get_probe [OF assms(1)] stops_def add.commute split: option.splits)
qed

lemma loop_finds_first_stop:
  assumes "shape_ok m" "first_stop m k n"
  shows "t \<le> n \<Longrightarrow>
    get_bucket_index_loop m k (hash_function_oa m k mod capacity_oa m) (int t + 1) (probe_index m k t)
      = Some (Inr (probe_index m k n))"
proof (induction "n - t" arbitrary: t)
  case 0
  then have "t = n" by simp
  with assms show ?case by (simp add: loop_at_stop first_stop_def)
next
  case (Suc d)
  then have lt: "t < n" by simp
  with assms(2) have "\<not> stops m k (probe_index m k t)" by (simp add: first_stop_def)
  from loop_at_nonstop [OF assms(1) this] Suc.hyps(1) [of "Suc t"] Suc.hyps(2) lt
  show ?case by simp
qed

lemma get_bucket_index_first_stop:
  assumes "shape_ok m" "first_stop m k n"
  shows "get_bucket_index m k = Some (Inr (probe_index m k n))"
proof -
  from assms(1) have "capacity_oa m \<noteq> 0" by (simp add: shape_ok_def)
  with loop_finds_first_stop [OF assms, of 0] show ?thesis
    by (simp add: get_bucket_index_def Let_def probe_index_0 [OF assms(1)])
qed

lemma loop_result_aux:
  assumes "get_bucket_index_loop m k initial j index = Some r"
  shows "\<forall>t. shape_ok m \<and> initial = hash_function_oa m k mod capacity_oa m \<and>
            j = int t + 1 \<and> index = probe_index m k t \<longrightarrow>
          (\<exists>n\<ge>t. r = Inr (probe_index m k n) \<and> stops m k (probe_index m k n) \<and>
             (\<forall>i. t \<le> i \<and> i < n \<longrightarrow> \<not> stops m k (probe_index m k i)))"
    (is "?P m k initial j index r")
proof (rule get_bucket_index_loop.raw_induct [where P = ?P, OF _ assms])
  fix loop :: "('a, 'b) hash_map_oa \<Rightarrow> 'a \<Rightarrow> int \<Rightarrow> int \<Rightarrow> int \<Rightarrow> (error + int) option"
  fix m k initial j index r
  assume ih: "\<And>m k initial j index r. loop m k initial j index = Some r \<Longrightarrow> ?P m k initial j index r"
  assume body: "(case da_get (buckets_oa m) index of
        Inl e \<Rightarrow> Some (Inl e)
      | Inr None \<Rightarrow> Some (Inr index)
      | Inr (Some entry) \<Rightarrow>
          if entry_key entry = k then Some (Inr index)
          else loop m k initial (j + 1) ((initial + j ^ 2) mod capacity_oa m)) = Some r"
  show "?P m k initial j index r"
  proof (intro allI impI, elim conjE)
    fix t
    assume sh: "shape_ok m" and init: "initial = hash_function_oa m k mod capacity_oa m"
      and jt: "j = int t + 1" and idx: "index = probe_index m k t"
    have dg: "da_get (buckets_oa m) index = Inr (buckets_oa m ! nat (probe_index m k t))"
      using da_get_probe [OF sh, of k t] idx by simp
    show "\<exists>n\<ge>t. r = Inr (probe_index m k n) \<and> stops m k (probe_index m k n) \<and>
             (\<forall>i. t \<le> i \<and> i < n \<longrightarrow> \<not> stops m k (probe_index m k i))"
    proof (cases "stops m k (probe_index m k t)")
      case True
      with body dg have "r = Inr (probe_index m k t)"
        by (auto simp: stops_def idx split: option.splits if_splits)
      with True show ?thesis by (intro exI [of _ t]) auto
    next
      case False
      have nx: "(initial + j ^ 2) mod capacity_oa m = probe_index m k (Suc t)"
        by (simp add: probe_index_def init jt add.commute)
      from False body dg have "loop m k initial (j + 1) (probe_index m k (Suc t)) = Some r"
        by (auto simp: stops_def nx split: option.splits if_splits)
      from ih [OF this, rule_format, of "Suc t"] sh init jt
      obtain n where n: "n \<ge> Suc t" "r = Inr (probe_index m k n)" "stops m k (probe_index m k n)"
        "\<forall>i. Suc t \<le> i \<and> i < n \<longrightarrow> \<not> stops m k (probe_index m k i)"
        by auto
      have "\<forall>i. t \<le> i \<and> i < n \<longrightarrow> \<not> stops m k (probe_index m k i)"
      proof (intro allI impI)
        fix i assume "t \<le> i \<and> i < n"
        then have "i = t \<or> (Suc t \<le> i \<and> i < n)" by auto
        with False n(4) show "\<not> stops m k (probe_index m k i)" by auto
      qed
      with n show ?thesis by (intro exI [of _ n]) auto
    qed
  qed
qed

lemma get_bucket_index_result:
  assumes "shape_ok m" "get_bucket_index m k = Some r"
  shows "\<exists>n. r = Inr (probe_index m k n) \<and> first_stop m k n"
proof -
  from assms(1) have "capacity_oa m \<noteq> 0" by (simp add: shape_ok_def)
  with assms(2) have "get_bucket_index_loop m k (hash_function_oa m k mod capacity_oa m) 1
      (hash_function_oa m k mod capacity_oa m) = Some r"
    by (simp add: get_bucket_index_def Let_def)
  from loop_result_aux [OF this, rule_format, of 0] assms(1) probe_index_0 [OF assms(1), of k]
  show ?thesis by (auto simp: first_stop_def)
qed

section \<open>The contents of an open-addressing table\<close>

definition live_pair :: "('k, 'v) hash_entry option \<Rightarrow> ('k \<times> 'v) list" where
  "live_pair bucket =
     (case live_entry bucket of Some entry \<Rightarrow> [(entry_key entry, entry_value entry)] | None \<Rightarrow> [])"

definition live_pairs :: "('k, 'v) hash_entry option list \<Rightarrow> ('k \<times> 'v) list" where
  "live_pairs bs = concat (map live_pair bs)"

definition entries_oa :: "('k, 'v) hash_map_oa \<Rightarrow> 'k \<Rightarrow> 'v option" where
  "entries_oa m = map_of (live_pairs (buckets_oa m))"

definition path_ok :: "('k, 'v) hash_map_oa \<Rightarrow> bool" where
  "path_ok m \<longleftrightarrow>
     (\<forall>i<length (buckets_oa m). \<forall>entry. buckets_oa m ! i = Some entry \<longrightarrow>
        (\<exists>n. probe_index m (entry_key entry) n = int i \<and> first_stop m (entry_key entry) n))"

definition core_ok :: "('k, 'v) hash_map_oa \<Rightarrow> bool" where
  "core_ok m \<longleftrightarrow>
     shape_ok m \<and> path_ok m \<and> size_oa m = int (length (live_pairs (buckets_oa m)))"

definition no_tombstones :: "('k, 'v) hash_map_oa \<Rightarrow> bool" where
  "no_tombstones m \<longleftrightarrow> (\<forall>entry. Some entry \<in> set (buckets_oa m) \<longrightarrow> \<not> is_tombstone entry)"

definition occupied :: "('k, 'v) hash_map_oa \<Rightarrow> nat" where
  "occupied m = length (filter (\<lambda>bucket. bucket \<noteq> None) (buckets_oa m))"

subsection \<open>Enumeration\<close>

lemma live_pairs_Nil [simp]: "live_pairs [] = []"
  by (simp add: live_pairs_def)

lemma live_pairs_Cons [simp]: "live_pairs (b # bs) = live_pair b @ live_pairs bs"
  by (simp add: live_pairs_def)

lemma live_pairs_append [simp]: "live_pairs (as @ bs) = live_pairs as @ live_pairs bs"
  by (simp add: live_pairs_def)

lemma live_pairs_replicate_None [simp]: "live_pairs (replicate n None) = []"
  by (induction n) (simp_all add: live_pair_def live_entry_def)

lemma gkv_loop_oa:
  "i \<le> length bs \<Longrightarrow>
     get_keys_and_values_loop_oa bs [i..<length bs] arr = Inr (arr @ live_pairs (drop i bs))"
proof (induction "length bs - i" arbitrary: i arr)
  case 0
  then show ?case by simp
next
  case (Suc d)
  then have lt: "i < length bs" by simp
  then have up: "[i..<length bs] = i # [Suc i..<length bs]" by (simp add: upt_conv_Cons)
  have dr: "drop i bs = bs ! i # drop (Suc i) bs" using lt by (simp add: Cons_nth_drop_Suc)
  have ih: "get_keys_and_values_loop_oa bs [Suc i..<length bs] arr' =
      Inr (arr' @ live_pairs (drop (Suc i) bs))" for arr'
    using Suc.hyps(1) [of "Suc i" arr'] Suc.hyps(2) lt by simp
  show ?case
    using lt by (simp add: up dr ih da_get_def live_pair_def split: option.splits)
qed

lemma get_keys_and_values_oa_eq:
  "length (buckets_oa m) = nat (capacity_oa m) \<Longrightarrow>
     get_keys_and_values_oa m = Inr (live_pairs (buckets_oa m))"
  using gkv_loop_oa [of 0 "buckets_oa m" "[]"] by (simp add: get_keys_and_values_oa_def)

lemma in_live_pairs_iff:
  "(k, v) \<in> set (live_pairs bs) \<longleftrightarrow>
     (\<exists>i<length bs. \<exists>entry. bs ! i = Some entry \<and> \<not> is_tombstone entry \<and>
        entry_key entry = k \<and> entry_value entry = v)"
proof -
  have "(k, v) \<in> set (live_pairs bs) \<longleftrightarrow> (\<exists>b \<in> set bs. (k, v) \<in> set (live_pair b))"
    by (auto simp: live_pairs_def)
  also have "\<dots> \<longleftrightarrow> (\<exists>i<length bs. (k, v) \<in> set (live_pair (bs ! i)))"
    by (metis in_set_conv_nth)
  also have "\<dots> \<longleftrightarrow> (\<exists>i<length bs. \<exists>entry. bs ! i = Some entry \<and> \<not> is_tombstone entry \<and>
        entry_key entry = k \<and> entry_value entry = v)"
    by (auto simp: live_pair_def live_entry_def split: option.splits if_splits)
  finally show ?thesis .
qed

lemma length_live_pairs_update:
  "i < length bs \<Longrightarrow>
     length (live_pairs (bs[i := x])) + length (live_pair (bs ! i)) =
     length (live_pairs bs) + length (live_pair x)"
proof (induction bs arbitrary: i)
  case Nil
  then show ?case by simp
next
  case (Cons b bs)
  show ?case
  proof (cases i)
    case 0
    then show ?thesis by simp
  next
    case (Suc i')
    with Cons.prems have "i' < length bs" by simp
    from Cons.IH [OF this] Suc show ?thesis by simp
  qed
qed

definition unique_keys :: "('k, 'v) hash_entry option list \<Rightarrow> bool" where
  "unique_keys bs \<longleftrightarrow>
     (\<forall>i<length bs. \<forall>j<length bs. \<forall>e e'. bs ! i = Some e \<and> bs ! j = Some e' \<and>
        entry_key e = entry_key e' \<longrightarrow> i = j)"

lemma unique_keys_Cons: "unique_keys (b # bs) \<Longrightarrow> unique_keys bs"
  unfolding unique_keys_def
proof (intro allI impI)
  fix i j e e'
  assume u: "\<forall>i<length (b # bs). \<forall>j<length (b # bs). \<forall>e e'.
      (b # bs) ! i = Some e \<and> (b # bs) ! j = Some e' \<and> entry_key e = entry_key e' \<longrightarrow> i = j"
  assume "i < length bs" "j < length bs"
    "bs ! i = Some e \<and> bs ! j = Some e' \<and> entry_key e = entry_key e'"
  with u [rule_format, of "Suc i" "Suc j" e e'] show "i = j" by simp
qed

lemma unique_keys_distinct: "unique_keys bs \<Longrightarrow> distinct (map fst (live_pairs bs))"
proof (induction bs)
  case Nil
  then show ?case by simp
next
  case (Cons b bs)
  from Cons have d: "distinct (map fst (live_pairs bs))" using unique_keys_Cons by blast
  show ?case
  proof (cases "live_entry b")
    case None
    with d show ?thesis by (simp add: live_pair_def)
  next
    case (Some e)
    then have b: "b = Some e" by (auto simp: live_entry_def split: option.splits if_splits)
    have "entry_key e \<notin> fst ` set (live_pairs bs)"
    proof
      assume "entry_key e \<in> fst ` set (live_pairs bs)"
      then obtain v where "(entry_key e, v) \<in> set (live_pairs bs)" by auto
      then obtain j e' where j: "j < length bs" "bs ! j = Some e'" "entry_key e' = entry_key e"
        by (auto simp: in_live_pairs_iff)
      with Cons.prems [unfolded unique_keys_def, rule_format, of 0 "Suc j" e e'] b
      show False by simp
    qed
    with d Some show ?thesis by (simp add: live_pair_def)
  qed
qed

lemma first_stop_unique: "first_stop m k n \<Longrightarrow> first_stop m k n' \<Longrightarrow> n = n'"
  unfolding first_stop_def by (meson nat_neq_iff)

lemma probe_index_nat:
  "shape_ok m \<Longrightarrow> nat (probe_index m k n) < length (buckets_oa m) \<and>
     int (nat (probe_index m k n)) = probe_index m k n"
  using probe_index_range [of m k n] by auto

lemma core_unique_keys:
  assumes "core_ok m"
  shows "unique_keys (buckets_oa m)"
  unfolding unique_keys_def
proof (intro allI impI, elim conjE)
  fix i j e e'
  assume i: "i < length (buckets_oa m)" "buckets_oa m ! i = Some e"
    and j: "j < length (buckets_oa m)" "buckets_oa m ! j = Some e'"
    and eq: "entry_key e = entry_key e'"
  from assms have po: "path_ok m" by (simp add: core_ok_def)
  from po i obtain n where n: "probe_index m (entry_key e) n = int i" "first_stop m (entry_key e) n"
    unfolding path_ok_def by blast
  from po j obtain n' where n': "probe_index m (entry_key e') n' = int j" "first_stop m (entry_key e') n'"
    unfolding path_ok_def by blast
  from n(2) n'(2) eq have "n = n'" by (simp add: first_stop_unique)
  with n(1) n'(1) eq show "i = j" by simp
qed

lemma entries_oa_iff:
  assumes "core_ok m"
  shows "entries_oa m k = Some v \<longleftrightarrow>
     (\<exists>i<length (buckets_oa m). \<exists>entry. buckets_oa m ! i = Some entry \<and>
        \<not> is_tombstone entry \<and> entry_key entry = k \<and> entry_value entry = v)"
proof -
  have "distinct (map fst (live_pairs (buckets_oa m)))"
    using core_unique_keys [OF assms] by (rule unique_keys_distinct)
  then show ?thesis
    by (simp add: entries_oa_def in_live_pairs_iff [symmetric])
qed

lemma find_bucket_result:
  assumes "shape_ok m" "find_bucket_oa m k = Some r"
  shows "\<exists>n. first_stop m k n \<and>
     r = Inr (probe_index m k n, buckets_oa m ! nat (probe_index m k n))"
proof -
  from assms(2) obtain r' where r': "get_bucket_index m k = Some r'"
    by (auto simp: find_bucket_oa_def split: option.splits)
  from get_bucket_index_result [OF assms(1) this]
  obtain n where n: "r' = Inr (probe_index m k n)" "first_stop m k n" by blast
  with assms(2) r' da_get_probe [OF assms(1), of k n] show ?thesis
    by (auto simp: find_bucket_oa_def)
qed

lemma find_bucket_first_stop:
  assumes "shape_ok m" "first_stop m k n"
  shows "find_bucket_oa m k =
     Some (Inr (probe_index m k n, buckets_oa m ! nat (probe_index m k n)))"
  using get_bucket_index_first_stop [OF assms] da_get_probe [OF assms(1), of k n]
  by (simp add: find_bucket_oa_def)

lemma first_stop_slot:
  "first_stop m k n \<Longrightarrow> buckets_oa m ! nat (probe_index m k n) = Some e \<Longrightarrow> entry_key e = k"
  by (simp add: first_stop_def stops_def)

lemma entries_at_first_stop:
  assumes "core_ok m" "first_stop m k n"
  shows "entries_oa m k =
     (case live_entry (buckets_oa m ! nat (probe_index m k n)) of
        Some entry \<Rightarrow> Some (entry_value entry) | None \<Rightarrow> None)"
proof -
  from assms(1) have sh: "shape_ok m" and po: "path_ok m" by (simp_all add: core_ok_def)
  let ?i = "nat (probe_index m k n)"
  note pi = probe_index_nat [OF sh, of k n]
  show ?thesis
  proof (cases "live_entry (buckets_oa m ! ?i)")
    case (Some e)
    then have b: "buckets_oa m ! ?i = Some e" "\<not> is_tombstone e"
      by (auto simp: live_entry_def split: option.splits if_splits)
    with assms(2) have "entry_key e = k" by (simp add: first_stop_slot)
    with b pi have "entries_oa m k = Some (entry_value e)"
      by (subst entries_oa_iff [OF assms(1)]) blast
    with Some show ?thesis by simp
  next
    case None
    have "entries_oa m k = None"
    proof (rule ccontr)
      assume "entries_oa m k \<noteq> None"
      then obtain v where "entries_oa m k = Some v" by auto
      then obtain i' e' where i': "i' < length (buckets_oa m)" "buckets_oa m ! i' = Some e'"
        "\<not> is_tombstone e'" "entry_key e' = k"
        by (auto simp: entries_oa_iff [OF assms(1)])
      with po obtain n' where n': "probe_index m k n' = int i'" "first_stop m k n'"
        unfolding path_ok_def by blast
      with assms(2) have "n' = n" by (simp add: first_stop_unique)
      with n'(1) have "?i = i'" by simp
      with i' None show False by (simp add: live_entry_def)
    qed
    with None show ?thesis by simp
  qed
qed

lemma present_first_stop:
  assumes "core_ok m" "entries_oa m k = Some v"
  shows "\<exists>n. first_stop m k n"
proof -
  from assms obtain i e where "i < length (buckets_oa m)" "buckets_oa m ! i = Some e"
    "entry_key e = k"
    by (auto simp: entries_oa_iff [OF assms(1)])
  with assms(1) show ?thesis unfolding core_ok_def path_ok_def by blast
qed

lemma option_eq_SomeI: "(\<And>v. a = Some v \<longleftrightarrow> b = Some v) \<Longrightarrow> a = b"
  by (cases a; cases b) auto

lemma slot_update:
  fixes m :: "('k, 'v) hash_map_oa"
  assumes co: "core_ok m" and fs: "first_stop m k n" and key: "entry_key e' = k"
  defines "i \<equiv> nat (probe_index m k n)"
  defines "m' \<equiv> m\<lparr>buckets_oa := (buckets_oa m)[i := Some e'],
      size_oa := size_oa m + int (length (live_pair (Some e')))
                 - int (length (live_pair (buckets_oa m ! i)))\<rparr>"
  shows "core_ok m'"
    and "first_stop m' k n"
    and "entries_oa m' = (entries_oa m)(k := (if is_tombstone e' then None else Some (entry_value e')))"
proof -
  from co have sh: "shape_ok m" and po: "path_ok m"
    and sz: "size_oa m = int (length (live_pairs (buckets_oa m)))"
    by (simp_all add: core_ok_def)
  have i: "i < length (buckets_oa m)" "int i = probe_index m k n"
    using probe_index_nat [OF sh, of k n] by (simp_all add: i_def)
  have sh': "shape_ok m'" using sh by (simp add: shape_ok_def m'_def)
  have pi: "probe_index m' = probe_index m" by (simp add: probe_index_def m'_def fun_eq_iff)
  have len: "length (buckets_oa m') = length (buckets_oa m)" by (simp add: m'_def)
  have old: "buckets_oa m ! i = None \<or> (\<exists>e. buckets_oa m ! i = Some e \<and> entry_key e = k)"
    using fs by (auto simp: first_stop_def stops_def i_def split: option.splits)
  have st: "stops m k2 (probe_index m k2 j)" if "stops m' k2 (probe_index m k2 j)" for k2 j
  proof (cases "nat (probe_index m k2 j) = i")
    case True
    with that i have "k2 = k" by (simp add: stops_def m'_def key)
    with True old show ?thesis by (auto simp: stops_def)
  next
    case False
    with that show ?thesis by (simp add: stops_def m'_def)
  qed
  have fst: "first_stop m' k2 n2"
    if "first_stop m k2 n2" "stops m' k2 (probe_index m k2 n2)" for k2 n2
    using that st unfolding first_stop_def pi by blast
  have here: "stops m' k (probe_index m k n)"
    using i by (simp add: stops_def m'_def i_def key)
  from fst [OF fs here] show fs': "first_stop m' k n" .
  have po': "path_ok m'"
    unfolding path_ok_def len pi
  proof (intro allI impI)
    fix i2 e2
    assume i2: "i2 < length (buckets_oa m)" and b2: "buckets_oa m' ! i2 = Some e2"
    show "\<exists>n2. probe_index m (entry_key e2) n2 = int i2 \<and> first_stop m' (entry_key e2) n2"
    proof (cases "i2 = i")
      case True
      with b2 i have "e2 = e'" by (simp add: m'_def)
      with True i fs' key show ?thesis by auto
    next
      case False
      with b2 have b: "buckets_oa m ! i2 = Some e2" by (simp add: m'_def)
      with po i2 obtain n2 where n2: "probe_index m (entry_key e2) n2 = int i2"
        "first_stop m (entry_key e2) n2"
        unfolding path_ok_def by blast
      have "stops m' (entry_key e2) (probe_index m (entry_key e2) n2)"
        using b2 n2(1) by (simp add: stops_def)
      from fst [OF n2(2) this] n2(1) show ?thesis by blast
    qed
  qed
  have sz': "size_oa m' = int (length (live_pairs (buckets_oa m')))"
    using length_live_pairs_update [OF i(1), of "Some e'"] sz by (simp add: m'_def)
  from sh' po' sz' show co': "core_ok m'" by (simp add: core_ok_def)
  show "entries_oa m' = (entries_oa m)(k := (if is_tombstone e' then None else Some (entry_value e')))"
  proof (rule ext)
    fix k2
    show "entries_oa m' k2 =
      ((entries_oa m)(k := (if is_tombstone e' then None else Some (entry_value e')))) k2"
    proof (cases "k2 = k")
      case True
      have "buckets_oa m' ! i = Some e'"
        using i by (simp add: m'_def)
      then have "buckets_oa m' ! nat (probe_index m' k n) = Some e'"
        by (simp add: pi i_def)
      with entries_at_first_stop [OF co' fs'] True show ?thesis
        by (simp add: live_entry_def)
    next
      case False
      have "entries_oa m' k2 = entries_oa m k2"
      proof (rule option_eq_SomeI)
        fix v
        have "(\<exists>j<length (buckets_oa m). \<exists>e. buckets_oa m' ! j = Some e \<and>
                 \<not> is_tombstone e \<and> entry_key e = k2 \<and> entry_value e = v) \<longleftrightarrow>
              (\<exists>j<length (buckets_oa m). \<exists>e. buckets_oa m ! j = Some e \<and>
                 \<not> is_tombstone e \<and> entry_key e = k2 \<and> entry_value e = v)"
          (is "?L \<longleftrightarrow> ?R")
        proof
          assume ?L
          then obtain j e where j: "j < length (buckets_oa m)" "buckets_oa m' ! j = Some e"
            "\<not> is_tombstone e" "entry_key e = k2" "entry_value e = v" by blast
          have "j \<noteq> i"
          proof
            assume "j = i"
            with j i have "e = e'" by (simp add: m'_def)
            with j key False show False by simp
          qed
          with j have "buckets_oa m ! j = Some e" by (simp add: m'_def)
          with j show ?R by blast
        next
          assume ?R
          then obtain j e where j: "j < length (buckets_oa m)" "buckets_oa m ! j = Some e"
            "\<not> is_tombstone e" "entry_key e = k2" "entry_value e = v" by blast
          have "j \<noteq> i" using old j False by auto
          with j have "buckets_oa m' ! j = Some e" by (simp add: m'_def)
          with j show ?L by blast
        qed
        then show "entries_oa m' k2 = Some v \<longleftrightarrow> entries_oa m k2 = Some v"
          by (simp add: entries_oa_iff [OF co'] entries_oa_iff [OF co] len)
      qed
      with False show ?thesis by simp
    qed
  qed
qed

section \<open>Probing a sparse table of prime capacity terminates\<close>

lemma prime_int_dvd_mult:
  assumes p: "prime_int p" and d: "p dvd a * b"
  shows "p dvd a \<or> p dvd b"
proof (cases "p dvd a")
  case True
  then show ?thesis ..
next
  case False
  from p have p1: "1 < p" and nd: "\<And>d. 2 \<le> d \<Longrightarrow> d < p \<Longrightarrow> \<not> d dvd p"
    by (auto simp: prime_int_def)
  have "coprime p a"
  proof (rule coprimeI)
    fix c assume cp: "c dvd p" and ca: "c dvd a"
    let ?d = "\<bar>c\<bar>"
    from cp have dp: "?d dvd p" by simp
    from cp p1 have "c \<noteq> 0" by auto
    then have d1: "1 \<le> ?d" by simp
    from dp p1 have dle: "?d \<le> p" by (intro zdvd_imp_le) auto
    have "?d \<noteq> p"
    proof
      assume "?d = p"
      with ca have "p dvd a" by (metis abs_dvd_iff)
      with False show False ..
    qed
    with dle have "?d < p" by simp
    with nd [of ?d] dp have "\<not> 2 \<le> ?d" by blast
    with d1 have "?d = 1" by simp
    then show "is_unit c" by simp
  qed
  with d have "p dvd b" by (simp add: coprime_dvd_mult_right_iff)
  then show ?thesis ..
qed

lemma squares_inj:
  assumes p: "prime_int p" and a: "int a \<le> p div 2" and b: "int b \<le> p div 2"
    and eq: "(h + int a ^ 2) mod p = (h + int b ^ 2) mod p"
  shows "a = b"
proof -
  from p have p1: "1 < p" by (simp add: prime_int_def)
  from eq have "p dvd ((h + int a ^ 2) - (h + int b ^ 2))"
    by (simp add: mod_eq_dvd_iff)
  moreover have "(h + int a ^ 2) - (h + int b ^ 2) = (int a - int b) * (int a + int b)"
    by (simp add: power2_eq_square algebra_simps)
  ultimately have "p dvd (int a - int b) * (int a + int b)" by simp
  with p have "p dvd (int a - int b) \<or> p dvd (int a + int b)" by (rule prime_int_dvd_mult)
  then show ?thesis
  proof
    assume d: "p dvd (int a - int b)"
    have "\<bar>int a - int b\<bar> < p" using a b p1 by linarith
    with d have "int a - int b = 0" using zdvd_not_zless [of "\<bar>int a - int b\<bar>" p]
      by (cases "int a - int b = 0") auto
    then show ?thesis by simp
  next
    assume d: "p dvd (int a + int b)"
    show ?thesis
    proof (cases "int a + int b = 0")
      case True
      then show ?thesis by simp
    next
      case False
      then have pos: "0 < int a + int b" by simp
      with d have "p \<le> int a + int b" by (rule zdvd_imp_le)
      with a b show ?thesis by linarith
    qed
  qed
qed


lemma occupied_card:
  "occupied m = card {i. i < length (buckets_oa m) \<and> buckets_oa m ! i \<noteq> None}"
  by (simp add: occupied_def length_filter_conv_card)

lemma first_stop_exists:
  assumes sh: "shape_ok m" and p: "prime_int (capacity_oa m)"
    and load: "2 * int (occupied m) < capacity_oa m"
  shows "\<exists>n. first_stop m k n"
proof -
  let ?c = "capacity_oa m"
  let ?S = "{0..nat (?c div 2)}"
  let ?f = "\<lambda>n. nat (probe_index m k n)"
  let ?O = "{i. i < length (buckets_oa m) \<and> buckets_oa m ! i \<noteq> None}"
  from sh have cpos: "0 < ?c" by (simp add: shape_ok_def)
  have inj: "inj_on ?f ?S"
  proof (rule inj_onI)
    fix a b assume a: "a \<in> ?S" and b: "b \<in> ?S" and eq: "?f a = ?f b"
    have "probe_index m k a = probe_index m k b"
      by (metis eq probe_index_nat [OF sh])
    moreover from a b cpos have "int a \<le> ?c div 2" "int b \<le> ?c div 2" by auto
    ultimately show "a = b"
      using squares_inj [OF p, of a b "hash_function_oa m k mod ?c"]
      by (simp add: probe_index_def)
  qed
  have ex: "\<exists>n. stops m k (probe_index m k n)"
  proof (rule ccontr)
    assume "\<not> (\<exists>n. stops m k (probe_index m k n))"
    then have ns: "\<And>n. \<not> stops m k (probe_index m k n)" by blast
    have "?f ` ?S \<subseteq> ?O"
    proof
      fix i assume "i \<in> ?f ` ?S"
      then obtain n where n: "i = ?f n" by blast
      from ns [of n] have "buckets_oa m ! ?f n \<noteq> None"
        by (auto simp: stops_def split: option.splits)
      with n probe_index_nat [OF sh, of k n] show "i \<in> ?O" by simp
    qed
    moreover have "finite ?O" by simp
    ultimately have "card (?f ` ?S) \<le> card ?O" by (rule card_mono [rotated])
    with inj have "card ?S \<le> occupied m" by (simp add: card_image occupied_card)
    then have "?c div 2 + 1 \<le> int (occupied m)" using cpos by simp
    with load show False by linarith
  qed
  then obtain n0 where "stops m k (probe_index m k n0)" ..
  then have "stops m k (probe_index m k (LEAST n. stops m k (probe_index m k n)))"
    by (rule LeastI)
  moreover have "\<forall>j < (LEAST n. stops m k (probe_index m k n)). \<not> stops m k (probe_index m k j)"
    using not_less_Least by blast
  ultimately show ?thesis unfolding first_stop_def by blast
qed


lemma occupied_no_tombstones:
  "(\<forall>e. Some e \<in> set bs \<longrightarrow> \<not> is_tombstone e) \<Longrightarrow>
     length (filter (\<lambda>b. b \<noteq> None) bs) = length (live_pairs bs)"
  by (induction bs) (auto simp: live_pair_def live_entry_def split: option.splits)

lemma occupied_eq_size:
  "core_ok m \<Longrightarrow> no_tombstones m \<Longrightarrow> int (occupied m) = size_oa m"
  using occupied_no_tombstones [of "buckets_oa m"]
  by (simp add: core_ok_def no_tombstones_def occupied_def)

section \<open>Open addressing: what each operation does\<close>

lemma live_pair_live [simp]:
  "\<not> is_tombstone e \<Longrightarrow> live_pair (Some e) = [(entry_key e, entry_value e)]"
  by (simp add: live_pair_def live_entry_def)

lemma live_pair_dead [simp]: "live_entry b = None \<Longrightarrow> live_pair b = []"
  by (simp add: live_pair_def)

lemma live_entry_SomeD:
  "live_entry b = Some e \<Longrightarrow> b = Some e \<and> \<not> is_tombstone e"
  by (auto simp: live_entry_def split: option.splits if_splits)

lemma no_tombstones_update:
  "no_tombstones m \<Longrightarrow> \<not> is_tombstone e \<Longrightarrow>
     no_tombstones (m\<lparr>buckets_oa := (buckets_oa m)[i := Some e], size_oa := s\<rparr>)"
  unfolding no_tombstones_def
  using set_update_subset_insert [of "buckets_oa m" i "Some e"] by auto

lemma slot_update_as:
  fixes m :: "('k, 'v) hash_map_oa"
  assumes "core_ok m" "first_stop m k n" "entry_key e' = k"
    and "m1 = m\<lparr>buckets_oa := (buckets_oa m)[nat (probe_index m k n) := Some e'],
      size_oa := size_oa m + int (length (live_pair (Some e')))
                 - int (length (live_pair (buckets_oa m ! nat (probe_index m k n))))\<rparr>"
  shows "core_ok m1"
    and "first_stop m1 k n"
    and "entries_oa m1 =
      (entries_oa m)(k := (if is_tombstone e' then None else Some (entry_value e')))"
  unfolding assms(4) by (rule slot_update [OF assms(1-3)])+

lemma put_entry_oa_spec:
  assumes co: "core_ok m" and put: "put_entry_oa m k v = Some r"
  shows "\<exists>m'. r = Inr m' \<and> core_ok m' \<and> entries_oa m' = (entries_oa m)(k \<mapsto> v) \<and>
     capacity_oa m' = capacity_oa m \<and> hash_function_oa m' = hash_function_oa m \<and>
     size_oa m' = (if entries_oa m k = None then size_oa m + 1 else size_oa m) \<and>
     (no_tombstones m \<longrightarrow> no_tombstones m')"
proof -
  from co have sh: "shape_ok m" by (simp add: core_ok_def)
  from put obtain fr where fr: "find_bucket_oa m k = Some fr"
    by (auto simp: put_entry_oa_def split: option.splits)
  from find_bucket_result [OF sh this] obtain n where fs: "first_stop m k n"
    and fr': "fr = Inr (probe_index m k n, buckets_oa m ! nat (probe_index m k n))" by blast
  let ?i = "nat (probe_index m k n)"
  note pin = probe_index_nat [OF sh, of k n]
  note ent = entries_at_first_stop [OF co fs]
  show ?thesis
  proof (cases "live_entry (buckets_oa m ! ?i)")
    case (Some e)
    note live = live_entry_SomeD [OF Some]
    let ?e' = "e\<lparr>entry_value := v\<rparr>"
    let ?m' = "m\<lparr>buckets_oa := (buckets_oa m)[?i := Some ?e']\<rparr>"
    have key: "entry_key ?e' = k" using first_stop_slot [OF fs] live by simp
    have eq: "?m' = m\<lparr>buckets_oa := (buckets_oa m)[?i := Some ?e'],
      size_oa := size_oa m + int (length (live_pair (Some ?e')))
                 - int (length (live_pair (buckets_oa m ! ?i)))\<rparr>"
      using live by simp
    have r: "r = Inr ?m'"
      using put fr fr' Some by (simp add: put_entry_oa_def)
    note su = slot_update_as [OF co fs key eq]
    have "entries_oa ?m' = (entries_oa m)(k \<mapsto> v)"
      using su(3) live by simp
    moreover have "\<not> entries_oa m k = None" using ent Some by simp
    moreover have "no_tombstones m \<longrightarrow> no_tombstones ?m'"
      using no_tombstones_update [where m = m and e = ?e' and i = ?i and s = "size_oa m"] live by simp
    moreover have "capacity_oa ?m' = capacity_oa m" "hash_function_oa ?m' = hash_function_oa m"
      "size_oa ?m' = size_oa m" by simp_all
    ultimately show ?thesis using r su(1) by (intro exI [of _ ?m']) (simp only: simp_thms if_False)
  next
    case None
    let ?e' = "HashEntry k v"
    let ?m' = "m\<lparr>buckets_oa := (buckets_oa m)[?i := Some ?e'], size_oa := size_oa m + 1\<rparr>"
    have key: "entry_key ?e' = k" and lv: "\<not> is_tombstone ?e'" and vl: "entry_value ?e' = v"
      by (simp_all add: HashEntry_def)
    have eq: "?m' = m\<lparr>buckets_oa := (buckets_oa m)[?i := Some ?e'],
      size_oa := size_oa m + int (length (live_pair (Some ?e')))
                 - int (length (live_pair (buckets_oa m ! ?i)))\<rparr>"
      using None lv by simp
    have ds: "da_set (buckets_oa m) (probe_index m k n) (Some ?e') = Inr ((buckets_oa m)[?i := Some ?e'])"
      using probe_index_range [OF sh, of k n] by (simp add: da_set_def)
    have r: "r = Inr ?m'"
      using put fr fr' None ds by (simp add: put_entry_oa_def)
    note su = slot_update_as [OF co fs key eq]
    have "entries_oa ?m' = (entries_oa m)(k \<mapsto> v)"
      using su(3) lv vl by simp
    moreover have "entries_oa m k = None" using ent None by simp
    moreover have "no_tombstones m \<longrightarrow> no_tombstones ?m'"
      using no_tombstones_update [where m = m and e = ?e' and i = ?i and s = "size_oa m + 1"] lv by simp
    moreover have "capacity_oa ?m' = capacity_oa m" "hash_function_oa ?m' = hash_function_oa m"
      "size_oa ?m' = size_oa m + 1" by simp_all
    ultimately show ?thesis using r su(1) by (intro exI [of _ ?m']) (simp only: simp_thms if_True)
  qed
qed

lemma put_entry_oa_returns:
  assumes co: "core_ok m" and fs: "first_stop m k n"
  shows "\<exists>r. put_entry_oa m k v = Some r"
proof -
  from co have sh: "shape_ok m" by (simp add: core_ok_def)
  have ds: "\<exists>bs. da_set (buckets_oa m) (probe_index m k n) x = Inr bs" for x
    using probe_index_range [OF sh, of k n] by (simp add: da_set_def)
  show ?thesis
    using find_bucket_first_stop [OF sh fs] ds
    by (auto simp: put_entry_oa_def split: option.splits sum.splits)
qed

lemma get_oa_spec:
  assumes co: "core_ok m" and get: "get_oa m k = Some r"
  shows "r = Inr (entries_oa m k)"
proof -
  from co have sh: "shape_ok m" by (simp add: core_ok_def)
  from get obtain fr where fr: "find_bucket_oa m k = Some fr"
    by (auto simp: get_oa_def split: option.splits)
  from find_bucket_result [OF sh this] obtain n where fs: "first_stop m k n"
    and fr': "fr = Inr (probe_index m k n, buckets_oa m ! nat (probe_index m k n))" by blast
  from get fr fr' entries_at_first_stop [OF co fs] show ?thesis
    by (auto simp: get_oa_def split: option.splits)
qed

lemma get_oa_present:
  assumes co: "core_ok m" and e: "entries_oa m k = Some v"
  shows "get_oa m k = Some (Inr (Some v))"
proof -
  from co have sh: "shape_ok m" by (simp add: core_ok_def)
  from present_first_stop [OF co e] obtain n where fs: "first_stop m k n" ..
  from find_bucket_first_stop [OF sh fs] have "\<exists>r. get_oa m k = Some r"
    by (auto simp: get_oa_def split: option.splits)
  then obtain r where r: "get_oa m k = Some r" ..
  from get_oa_spec [OF co r] r e show ?thesis by simp
qed

lemma core_size_zero:
  "core_ok m \<Longrightarrow> size_oa m = 0 \<Longrightarrow> entries_oa m k = None"
  by (simp add: core_ok_def entries_oa_def)

lemma contains_key_oa_spec:
  assumes co: "core_ok m" and c: "contains_key_oa m k = Some r"
  shows "r = Inr (entries_oa m k \<noteq> None)"
proof (cases "size_oa m = 0")
  case True
  with c core_size_zero [OF co True, of k] show ?thesis by (simp add: contains_key_oa_def)
next
  case False
  from co have sh: "shape_ok m" by (simp add: core_ok_def)
  from c False obtain fr where fr: "find_bucket_oa m k = Some fr"
    by (auto simp: contains_key_oa_def split: option.splits)
  from find_bucket_result [OF sh this] obtain n where fs: "first_stop m k n"
    and fr': "fr = Inr (probe_index m k n, buckets_oa m ! nat (probe_index m k n))" by blast
  from c False fr fr' entries_at_first_stop [OF co fs] show ?thesis
    by (auto simp: contains_key_oa_def split: option.splits)
qed

lemma contains_key_oa_returns:
  assumes co: "core_ok m" and fs: "first_stop m k n"
  shows "contains_key_oa m k = Some (Inr (entries_oa m k \<noteq> None))"
proof -
  from co have sh: "shape_ok m" by (simp add: core_ok_def)
  from find_bucket_first_stop [OF sh fs] have "\<exists>r. contains_key_oa m k = Some r"
    by (auto simp: contains_key_oa_def split: option.splits)
  then obtain r where r: "contains_key_oa m k = Some r" ..
  from contains_key_oa_spec [OF co r] r show ?thesis by simp
qed

lemma remove_oa_spec:
  assumes co: "core_ok m" and rm: "remove_oa m k = Some r"
  shows "\<exists>m'. r = Inr m' \<and> core_ok m' \<and> entries_oa m' = (entries_oa m)(k := None) \<and>
     capacity_oa m' = capacity_oa m \<and> hash_function_oa m' = hash_function_oa m \<and>
     size_oa m' = (if entries_oa m k = None then size_oa m else size_oa m - 1) \<and>
     (entries_oa m k = None \<longrightarrow> m' = m) \<and>
     contains_key_oa m' k = Some (Inr False)"
proof -
  from co have sh: "shape_ok m" by (simp add: core_ok_def)
  from rm obtain fr where fr: "find_bucket_oa m k = Some fr"
    by (auto simp: remove_oa_def split: option.splits)
  from find_bucket_result [OF sh this] obtain n where fs: "first_stop m k n"
    and fr': "fr = Inr (probe_index m k n, buckets_oa m ! nat (probe_index m k n))" by blast
  let ?i = "nat (probe_index m k n)"
  note ent = entries_at_first_stop [OF co fs]
  show ?thesis
  proof (cases "live_entry (buckets_oa m ! ?i)")
    case (Some e)
    note live = live_entry_SomeD [OF Some]
    let ?e' = "e\<lparr>is_tombstone := True\<rparr>"
    let ?m' = "m\<lparr>buckets_oa := (buckets_oa m)[?i := Some ?e'], size_oa := size_oa m - 1\<rparr>"
    have key: "entry_key ?e' = k" using first_stop_slot [OF fs] live by simp
    have dead: "live_pair (Some ?e') = []" by (simp add: live_pair_def live_entry_def)
    have eq: "?m' = m\<lparr>buckets_oa := (buckets_oa m)[?i := Some ?e'],
      size_oa := size_oa m + int (length (live_pair (Some ?e')))
                 - int (length (live_pair (buckets_oa m ! ?i)))\<rparr>"
      using live dead by simp
    have r: "r = Inr ?m'"
      using rm fr fr' Some by (simp add: remove_oa_def)
    note su = slot_update_as [OF co fs key eq]
    note co' = su(1) and fs' = su(2)
    have en': "entries_oa ?m' = (entries_oa m)(k := None)"
      using su(3) by simp
    have "contains_key_oa ?m' k = Some (Inr False)"
    proof (cases "size_oa ?m' = 0")
      case True
      then show ?thesis by (simp add: contains_key_oa_def)
    next
      case False
      from contains_key_oa_returns [OF co' fs'] en' show ?thesis by simp
    qed
    moreover have "\<not> entries_oa m k = None" using ent Some by simp
    moreover have "capacity_oa ?m' = capacity_oa m" "hash_function_oa ?m' = hash_function_oa m"
      "size_oa ?m' = size_oa m - 1" by simp_all
    ultimately show ?thesis using r co' en'
      by (intro exI [of _ ?m']) (simp only: simp_thms if_False)
  next
    case None
    have r: "r = Inr m" using rm fr fr' None by (simp add: remove_oa_def)
    have en: "entries_oa m k = None" using ent None by simp
    then have "(entries_oa m)(k := None) = entries_oa m" by (simp add: fun_upd_idem)
    moreover have "contains_key_oa m k = Some (Inr False)"
    proof (cases "size_oa m = 0")
      case True
      then show ?thesis by (simp add: contains_key_oa_def)
    next
      case False
      from contains_key_oa_returns [OF co fs] en show ?thesis by simp
    qed
    ultimately show ?thesis using r co en by simp
  qed
qed

lemma remove_oa_present:
  assumes co: "core_ok m" and e: "entries_oa m k = Some v"
  shows "\<exists>r. remove_oa m k = Some r"
proof -
  from co have sh: "shape_ok m" by (simp add: core_ok_def)
  from present_first_stop [OF co e] obtain n where fs: "first_stop m k n" ..
  from find_bucket_first_stop [OF sh fs] show ?thesis
    by (auto simp: remove_oa_def split: option.splits)
qed

definition wf_oa :: "('k, 'v) hash_map_oa \<Rightarrow> bool" where
  "wf_oa m \<longleftrightarrow>
     core_ok m \<and> prime_int (capacity_oa m) \<and> 2 * size_oa m \<le> capacity_oa m + 1"

fun put_all :: "('k \<Rightarrow> 'v option) \<Rightarrow> ('k \<times> 'v) list \<Rightarrow> ('k \<Rightarrow> 'v option)" where
  "put_all f [] = f"
| "put_all f ((k, v) # kvs) = put_all (f(k \<mapsto> v)) kvs"

lemma put_all_distinct:
  "distinct (map fst kvs) \<Longrightarrow> put_all f kvs = f ++ map_of kvs"
proof (induction kvs arbitrary: f)
  case Nil
  then show ?case by simp
next
  case (Cons kv kvs)
  obtain k v where kv: "kv = (k, v)" by (cases kv)
  from Cons.prems kv have nk: "k \<notin> dom (map_of kvs)" and d: "distinct (map fst kvs)"
    by (auto simp: dom_map_of_conv_image_fst)
  have sw: "f(k \<mapsto> v) ++ map_of kvs = f ++ (map_of kvs)(k \<mapsto> v)"
  proof (rule ext)
    fix x show "(f(k \<mapsto> v) ++ map_of kvs) x = (f ++ (map_of kvs)(k \<mapsto> v)) x"
      using nk by (cases "x = k") (auto simp: map_add_def domIff split: option.splits)
  qed
  have "put_all f (kv # kvs) = put_all (f(k \<mapsto> v)) kvs" by (simp add: kv)
  also have "\<dots> = f(k \<mapsto> v) ++ map_of kvs" by (rule Cons.IH [OF d])
  also have "\<dots> = f ++ (map_of kvs)(k \<mapsto> v)" by (rule sw)
  also have "\<dots> = f ++ map_of (kv # kvs)" by (simp add: kv)
  finally show ?case .
qed

lemma load_ge_half:
  "0 < c \<Longrightarrow> (1 / 2 \<le> real_of_int s / real_of_int c) \<longleftrightarrow> c \<le> 2 * s"
proof -
  assume c: "0 < c"
  then have "(1 / 2 \<le> real_of_int s / real_of_int c) \<longleftrightarrow> real_of_int c \<le> 2 * real_of_int s"
    by (simp add: field_simps)
  also have "\<dots> \<longleftrightarrow> c \<le> 2 * s"
    by (metis of_int_le_iff of_int_mult of_int_numeral)
  finally show ?thesis .
qed

lemma core_size_card:
  assumes "core_ok m"
  shows "size_oa m = int (card (dom (entries_oa m)))"
proof -
  have d: "distinct (map fst (live_pairs (buckets_oa m)))"
    using core_unique_keys [OF assms] by (rule unique_keys_distinct)
  have "card (dom (entries_oa m)) = card (set (map fst (live_pairs (buckets_oa m))))"
    by (simp add: entries_oa_def dom_map_of_conv_image_fst)
  also have "\<dots> = length (live_pairs (buckets_oa m))"
    using distinct_card [OF d] by simp
  finally show ?thesis using assms by (simp add: core_ok_def)
qed

lemma put_oa_no_resize:
  assumes "shape_ok m" "2 * size_oa m < capacity_oa m"
  shows "put_oa m k v = put_entry_oa m k v"
proof -
  from assms(1) have c: "0 < capacity_oa m" by (simp add: shape_ok_def)
  with assms(2) have "\<not> 1 / 2 \<le> real_of_int (size_oa m) / real_of_int (capacity_oa m)"
    by (simp add: load_ge_half)
  with c show ?thesis
    by (subst put_oa_unfold) (simp add: table_load_oa_def)
qed

lemma put_oa_with_resize:
  assumes "shape_ok m" "capacity_oa m \<le> 2 * size_oa m"
  shows "put_oa m k v =
     (case resize_table_oa m (capacity_oa m * 2) of
        None \<Rightarrow> None
      | Some (Inl e) \<Rightarrow> Some (Inl e)
      | Some (Inr m1) \<Rightarrow> put_entry_oa m1 k v)"
proof -
  from assms(1) have c: "0 < capacity_oa m" by (simp add: shape_ok_def)
  with assms(2) have "1 / 2 \<le> real_of_int (size_oa m) / real_of_int (capacity_oa m)"
    by (simp add: load_ge_half)
  with c show ?thesis
    by (subst put_oa_unfold) (simp add: table_load_oa_def)
qed

lemma put_oa_sparse:
  assumes co: "core_ok m" and pr: "prime_int (capacity_oa m)" and nt: "no_tombstones m"
    and sp: "2 * size_oa m < capacity_oa m"
  shows "\<exists>m'. put_oa m k v = Some (Inr m') \<and> core_ok m' \<and> no_tombstones m' \<and>
     capacity_oa m' = capacity_oa m \<and> hash_function_oa m' = hash_function_oa m \<and>
     entries_oa m' = (entries_oa m)(k \<mapsto> v) \<and>
     size_oa m' = (if entries_oa m k = None then size_oa m + 1 else size_oa m)"
proof -
  from co have sh: "shape_ok m" by (simp add: core_ok_def)
  have "2 * int (occupied m) < capacity_oa m"
    using occupied_eq_size [OF co nt] sp by simp
  from first_stop_exists [OF sh pr this] obtain n where "first_stop m k n" ..
  from put_entry_oa_returns [OF co this] obtain r where r: "put_entry_oa m k v = Some r" ..
  from put_entry_oa_spec [OF co r] r nt put_oa_no_resize [OF sh sp, of k v]
  show ?thesis by auto
qed

lemma reinsert_oa_sparse:
  assumes "core_ok m" "prime_int (capacity_oa m)" "no_tombstones m"
    and "2 * (size_oa m + int (length kvs)) \<le> capacity_oa m + 1"
  shows "\<exists>m'. reinsert_oa m kvs = Some (Inr m') \<and> core_ok m' \<and> no_tombstones m' \<and>
     capacity_oa m' = capacity_oa m \<and> hash_function_oa m' = hash_function_oa m \<and>
     entries_oa m' = put_all (entries_oa m) kvs"
  using assms
proof (induction kvs arbitrary: m)
  case Nil
  then show ?case by (simp add: reinsert_oa_Nil)
next
  case (Cons kv kvs)
  obtain k v where kv: "kv = (k, v)" by (cases kv)
  from Cons.prems(4) have sp: "2 * size_oa m < capacity_oa m" by simp
  from put_oa_sparse [OF Cons.prems(1-3) sp, of k v]
  obtain m1 where m1: "put_oa m k v = Some (Inr m1)" "core_ok m1" "no_tombstones m1"
    "capacity_oa m1 = capacity_oa m" "hash_function_oa m1 = hash_function_oa m"
    "entries_oa m1 = (entries_oa m)(k \<mapsto> v)"
    "size_oa m1 = (if entries_oa m k = None then size_oa m + 1 else size_oa m)"
    by blast
  have "2 * (size_oa m1 + int (length kvs)) \<le> capacity_oa m1 + 1"
    using Cons.prems(4) m1(4,7) by (simp split: if_splits)
  from Cons.IH [OF m1(2) _ m1(3) this] Cons.prems(2) m1(4)
  obtain m' where "reinsert_oa m1 kvs = Some (Inr m')" "core_ok m'" "no_tombstones m'"
    "capacity_oa m' = capacity_oa m1" "hash_function_oa m' = hash_function_oa m1"
    "entries_oa m' = put_all (entries_oa m1) kvs"
    by auto
  with m1 kv show ?case by (simp add: reinsert_oa_Cons)
qed

lemma core_ok_cleared:
  assumes "0 < p"
  shows "core_ok (clear_oa (m\<lparr>capacity_oa := p\<rparr>))"
    and "no_tombstones (clear_oa (m\<lparr>capacity_oa := p\<rparr>))"
    and "entries_oa (clear_oa (m\<lparr>capacity_oa := p\<rparr>)) = Map.empty"
    and "size_oa (clear_oa (m\<lparr>capacity_oa := p\<rparr>)) = 0"
    and "capacity_oa (clear_oa (m\<lparr>capacity_oa := p\<rparr>)) = p"
    and "hash_function_oa (clear_oa (m\<lparr>capacity_oa := p\<rparr>)) = hash_function_oa m"
  using assms
  by (simp_all add: core_ok_def shape_ok_def path_ok_def clear_oa_def no_tombstones_def
      entries_oa_def)

lemma normalise_capacity:
  assumes "0 \<le> n"
  shows "\<exists>p. (if \<not> is_prime n then next_prime n else Some n) = Some p \<and> prime_int p \<and> n \<le> p"
proof (cases "is_prime n")
  case True
  have "n \<noteq> 0" using True by (auto simp: is_prime_def)
  with assms have "1 \<le> n" by simp
  with True show ?thesis by (simp add: is_prime_iff_prime_int)
next
  case False
  from next_prime_total [of n] obtain q where q: "next_prime n = Some q" "is_prime q" "n \<le> q"
    by blast
  have "q \<noteq> 0" using q(2) by (auto simp: is_prime_def)
  with assms q(3) have "1 \<le> q" by simp
  with q False show ?thesis by (simp add: is_prime_iff_prime_int)
qed

lemma entries_live_pairs:
  assumes "core_ok m"
  shows "put_all Map.empty (live_pairs (buckets_oa m)) = entries_oa m"
proof -
  have "distinct (map fst (live_pairs (buckets_oa m)))"
    using core_unique_keys [OF assms] by (rule unique_keys_distinct)
  then show ?thesis by (simp add: put_all_distinct entries_oa_def)
qed

lemma resize_table_oa_rebuild:
  assumes co: "core_ok m" and n: "size_oa m \<le> n"
  shows "\<exists>p. prime_int p \<and> n \<le> p \<and>
     (if \<not> is_prime n then next_prime n else Some n) = Some p \<and>
     resize_table_oa m n =
       reinsert_oa (clear_oa (m\<lparr>capacity_oa := p\<rparr>)) (live_pairs (buckets_oa m))"
proof -
  from co have sh: "shape_ok m" and sz: "0 \<le> size_oa m" by (simp_all add: core_ok_def)
  with n have "0 \<le> n" by simp
  from normalise_capacity [OF this] obtain p where
    p: "(if \<not> is_prime n then next_prime n else Some n) = Some p" "prime_int p" "n \<le> p"
    by blast
  have "get_keys_and_values_oa m = Inr (live_pairs (buckets_oa m))"
    using sh by (intro get_keys_and_values_oa_eq) (simp add: shape_ok_def)
  with p n show ?thesis
    by (subst resize_table_oa_unfold) auto
qed

lemma auto_resize_oa:
  assumes wf: "wf_oa m" and full: "capacity_oa m \<le> 2 * size_oa m"
  shows "\<exists>m1. resize_table_oa m (capacity_oa m * 2) = Some (Inr m1) \<and> core_ok m1 \<and>
     prime_int (capacity_oa m1) \<and> no_tombstones m1 \<and> entries_oa m1 = entries_oa m \<and>
     hash_function_oa m1 = hash_function_oa m \<and> size_oa m1 = size_oa m \<and>
     2 * size_oa m1 < capacity_oa m1 \<and> capacity_oa m \<le> capacity_oa m1"
proof -
  from wf have co: "core_ok m" and pr: "prime_int (capacity_oa m)"
    and ld: "2 * size_oa m \<le> capacity_oa m + 1" by (simp_all add: wf_oa_def)
  from pr have c2: "2 \<le> capacity_oa m" by (simp add: prime_int_def)
  with ld have "size_oa m \<le> capacity_oa m * 2" by simp
  from resize_table_oa_rebuild [OF co this] obtain p where p: "prime_int p"
    "capacity_oa m * 2 \<le> p"
    "resize_table_oa m (capacity_oa m * 2) =
       reinsert_oa (clear_oa (m\<lparr>capacity_oa := p\<rparr>)) (live_pairs (buckets_oa m))"
    by blast
  let ?m0 = "clear_oa (m\<lparr>capacity_oa := p\<rparr>)"
  from p(1) have p0: "0 < p" by (simp add: prime_int_def)
  note cl = core_ok_cleared [OF p0, of m]
  have len: "int (length (live_pairs (buckets_oa m))) = size_oa m"
    using co by (simp add: core_ok_def)
  have "2 * (size_oa ?m0 + int (length (live_pairs (buckets_oa m)))) \<le> capacity_oa ?m0 + 1"
    using ld c2 p(2) by (simp add: cl len)
  from reinsert_oa_sparse [OF cl(1) _ cl(2) this] p(1) cl(5)
  obtain m1 where m1: "reinsert_oa ?m0 (live_pairs (buckets_oa m)) = Some (Inr m1)"
    "core_ok m1" "no_tombstones m1" "capacity_oa m1 = capacity_oa ?m0"
    "hash_function_oa m1 = hash_function_oa ?m0"
    "entries_oa m1 = put_all (entries_oa ?m0) (live_pairs (buckets_oa m))"
    by auto
  have en: "entries_oa m1 = entries_oa m"
    using m1(6) entries_live_pairs [OF co] by (simp add: cl)
  have "size_oa m1 = size_oa m"
    using core_size_card [OF m1(2)] core_size_card [OF co] en by simp
  moreover have "2 * size_oa m < p" using ld c2 p(2) by simp
  moreover have "capacity_oa m \<le> p" using c2 p(2) by simp
  ultimately show ?thesis using m1 p en by (simp add: cl)
qed

lemma put_oa_spec:
  assumes wf: "wf_oa m" and put: "put_oa m k v = Some r"
  shows "\<exists>m'. r = Inr m' \<and> wf_oa m' \<and> entries_oa m' = (entries_oa m)(k \<mapsto> v) \<and>
     hash_function_oa m' = hash_function_oa m \<and>
     size_oa m' = (if entries_oa m k = None then size_oa m + 1 else size_oa m) \<and>
     2 * (size_oa m' - 1) < capacity_oa m' \<and>
     (entries_oa m k \<noteq> None \<longrightarrow> 2 * size_oa m' < capacity_oa m') \<and>
     (no_tombstones m \<longrightarrow> no_tombstones m') \<and> capacity_oa m \<le> capacity_oa m'"
proof -
  from wf have co: "core_ok m" and pr: "prime_int (capacity_oa m)" by (simp_all add: wf_oa_def)
  from co have sh: "shape_ok m" by (simp add: core_ok_def)
  obtain m1 where m1: "put_entry_oa m1 k v = Some r" "core_ok m1" "prime_int (capacity_oa m1)"
    "entries_oa m1 = entries_oa m" "hash_function_oa m1 = hash_function_oa m"
    "size_oa m1 = size_oa m" "2 * size_oa m1 < capacity_oa m1"
    "no_tombstones m \<longrightarrow> no_tombstones m1" "capacity_oa m \<le> capacity_oa m1"
  proof (cases "capacity_oa m \<le> 2 * size_oa m")
    case True
    from auto_resize_oa [OF wf True] obtain m1 where
      "resize_table_oa m (capacity_oa m * 2) = Some (Inr m1)" "core_ok m1"
      "prime_int (capacity_oa m1)" "no_tombstones m1" "entries_oa m1 = entries_oa m"
      "hash_function_oa m1 = hash_function_oa m" "size_oa m1 = size_oa m"
      "2 * size_oa m1 < capacity_oa m1" "capacity_oa m \<le> capacity_oa m1" by blast
    with put put_oa_with_resize [OF sh True, of k v] that [of m1] show ?thesis by simp
  next
    case False
    then have "2 * size_oa m < capacity_oa m" by simp
    with put put_oa_no_resize [OF sh this, of k v] co pr that [of m] show ?thesis by simp
  qed
  from put_entry_oa_spec [OF m1(2) m1(1)] obtain m' where m': "r = Inr m'" "core_ok m'"
    "entries_oa m' = (entries_oa m1)(k \<mapsto> v)" "capacity_oa m' = capacity_oa m1"
    "hash_function_oa m' = hash_function_oa m1"
    "size_oa m' = (if entries_oa m1 k = None then size_oa m1 + 1 else size_oa m1)"
    "no_tombstones m1 \<longrightarrow> no_tombstones m'" by blast
  have "wf_oa m'" using m' m1 by (simp add: wf_oa_def split: if_splits)
  moreover have "2 * (size_oa m' - 1) < capacity_oa m'" using m' m1 by (simp split: if_splits)
  moreover have "entries_oa m k \<noteq> None \<longrightarrow> 2 * size_oa m' < capacity_oa m'"
    using m' m1 by simp
  ultimately show ?thesis using m' m1 by simp
qed

lemma put_oa_returns:
  assumes wf: "wf_oa m" and nt: "no_tombstones m"
  shows "\<exists>r. put_oa m k v = Some r"
proof -
  from wf have co: "core_ok m" and pr: "prime_int (capacity_oa m)" by (simp_all add: wf_oa_def)
  from co have sh: "shape_ok m" by (simp add: core_ok_def)
  show ?thesis
  proof (cases "capacity_oa m \<le> 2 * size_oa m")
    case True
    from auto_resize_oa [OF wf True] obtain m1 where m1:
      "resize_table_oa m (capacity_oa m * 2) = Some (Inr m1)" "core_ok m1"
      "prime_int (capacity_oa m1)" "no_tombstones m1" "2 * size_oa m1 < capacity_oa m1" by blast
    from put_oa_sparse [OF m1(2-5), of k v] put_oa_no_resize [of m1 k v] m1(2,5)
    have "\<exists>r. put_entry_oa m1 k v = Some r" by (auto simp: core_ok_def)
    with m1(1) put_oa_with_resize [OF sh True, of k v] show ?thesis by simp
  next
    case False
    then have "2 * size_oa m < capacity_oa m" by simp
    from put_oa_sparse [OF co pr nt this, of k v] show ?thesis by blast
  qed
qed

lemma reinsert_oa_wf:
  assumes "wf_oa m" "no_tombstones m"
  shows "\<exists>m'. reinsert_oa m kvs = Some (Inr m') \<and> wf_oa m' \<and> no_tombstones m' \<and>
     hash_function_oa m' = hash_function_oa m \<and> entries_oa m' = put_all (entries_oa m) kvs \<and>
     capacity_oa m \<le> capacity_oa m'"
  using assms
proof (induction kvs arbitrary: m)
  case Nil
  then show ?case by (simp add: reinsert_oa_Nil)
next
  case (Cons kv kvs)
  obtain k v where kv: "kv = (k, v)" by (cases kv)
  from put_oa_returns [OF Cons.prems, of k v] obtain r where r: "put_oa m k v = Some r" ..
  from put_oa_spec [OF Cons.prems(1) r] Cons.prems(2) obtain m1 where m1: "r = Inr m1"
    "wf_oa m1" "entries_oa m1 = (entries_oa m)(k \<mapsto> v)"
    "hash_function_oa m1 = hash_function_oa m" "no_tombstones m1"
    "capacity_oa m \<le> capacity_oa m1" by blast
  from Cons.IH [OF m1(2,5)] obtain m' where "reinsert_oa m1 kvs = Some (Inr m')" "wf_oa m'"
    "no_tombstones m'" "hash_function_oa m' = hash_function_oa m1"
    "entries_oa m' = put_all (entries_oa m1) kvs" "capacity_oa m1 \<le> capacity_oa m'" by blast
  with r m1 kv show ?case by (simp add: reinsert_oa_Cons)
qed

lemma resize_table_oa_spec:
  assumes wf: "wf_oa m"
  shows "\<exists>m'. resize_table_oa m n = Some (Inr m') \<and> wf_oa m' \<and>
     entries_oa m' = entries_oa m \<and> hash_function_oa m' = hash_function_oa m \<and>
     size_oa m' = size_oa m \<and>
     (n < size_oa m \<longrightarrow> m' = m) \<and>
     (size_oa m \<le> n \<longrightarrow> no_tombstones m' \<and>
        (\<exists>p. (if \<not> is_prime n then next_prime n else Some n) = Some p \<and> prime_int p \<and>
           n \<le> p \<and> p \<le> capacity_oa m'))"
proof (cases "n < size_oa m")
  case True
  with wf show ?thesis by (subst resize_table_oa_unfold) simp
next
  case False
  from wf have co: "core_ok m" by (simp add: wf_oa_def)
  from False have "size_oa m \<le> n" by simp
  from resize_table_oa_rebuild [OF co this] obtain p where p: "prime_int p"
    "resize_table_oa m n =
       reinsert_oa (clear_oa (m\<lparr>capacity_oa := p\<rparr>)) (live_pairs (buckets_oa m))"
    "n \<le> p" "(if \<not> is_prime n then next_prime n else Some n) = Some p"
    by blast
  let ?m0 = "clear_oa (m\<lparr>capacity_oa := p\<rparr>)"
  from p(1) have p0: "0 < p" by (simp add: prime_int_def)
  note cl = core_ok_cleared [OF p0, of m]
  have "wf_oa ?m0" using cl p(1) p0 by (simp add: wf_oa_def)
  from reinsert_oa_wf [OF this cl(2)] obtain m' where m':
    "reinsert_oa ?m0 (live_pairs (buckets_oa m)) = Some (Inr m')" "wf_oa m'" "no_tombstones m'"
    "hash_function_oa m' = hash_function_oa ?m0"
    "entries_oa m' = put_all (entries_oa ?m0) (live_pairs (buckets_oa m))"
    "capacity_oa ?m0 \<le> capacity_oa m'" by blast
  have en: "entries_oa m' = entries_oa m"
    using m'(5) entries_live_pairs [OF co] by (simp add: cl)
  have "core_ok m'" using m'(2) by (simp add: wf_oa_def)
  then have sz: "size_oa m' = size_oa m"
    using core_size_card [of m'] core_size_card [OF co] en by simp
  have "\<exists>q. (if \<not> is_prime n then next_prime n else Some n) = Some q \<and> prime_int q \<and>
      n \<le> q \<and> q \<le> capacity_oa m'"
    using p m'(6) by (intro exI [of _ p]) (simp add: cl)
  with m' p(2) en sz False show ?thesis by (simp add: cl)
qed

section \<open>Open addressing refines a dictionary\<close>

fun model_step :: "('k \<Rightarrow> 'v option) \<Rightarrow> ('k, 'v) operation \<Rightarrow> ('k \<Rightarrow> 'v option)" where
  "model_step f (Put k v) = f(k \<mapsto> v)"
| "model_step f (Get k) = f"
| "model_step f (ContainsKey k) = f"
| "model_step f (Remove k) = f(k := None)"
| "model_step f Clear = Map.empty"
| "model_step f (ResizeTable n) = f"

fun model_run :: "('k \<Rightarrow> 'v option) \<Rightarrow> ('k, 'v) operation list \<Rightarrow> ('k \<Rightarrow> 'v option)" where
  "model_run f [] = f"
| "model_run f (operation # operations) = model_run (model_step f operation) operations"

fun grows :: "('k, 'v) operation \<Rightarrow> bool" where
  "grows (Put k v) = True"
| "grows (ResizeTable n) = True"
| "grows _ = False"

fun overwrites :: "'k \<Rightarrow> ('k, 'v) operation \<Rightarrow> bool" where
  "overwrites k (Put k' v) = (k' = k)"
| "overwrites k (Remove k') = (k' = k)"
| "overwrites k Clear = True"
| "overwrites k _ = False"

lemma model_run_append: "model_run f (xs @ ys) = model_run (model_run f xs) ys"
  by (induction xs arbitrary: f) simp_all

lemma model_run_keeps:
  "\<forall>operation\<in>set operations. \<not> overwrites k operation \<Longrightarrow> model_run f operations k = f k"
proof (induction operations arbitrary: f)
  case Nil
  then show ?case by simp
next
  case (Cons operation operations)
  then have "model_step f operation k = f k" by (cases operation) auto
  with Cons show ?case by simp
qed

lemma model_run_last_put:
  "\<forall>operation\<in>set after. \<not> overwrites k operation \<Longrightarrow>
     model_run f (before @ Put k v # after) k = Some v"
  by (simp add: model_run_append model_run_keeps)

lemma keep_Inr: "keep m r = Some (Inr m') \<Longrightarrow> m' = m"
  by (auto simp: keep_def split: option.splits sum.splits)

lemma wf_oa_clear:
  assumes "wf_oa m"
  shows "wf_oa (clear_oa m)" "entries_oa (clear_oa m) = Map.empty" "no_tombstones (clear_oa m)"
    "hash_function_oa (clear_oa m) = hash_function_oa m"
proof -
  from assms have p: "prime_int (capacity_oa m)" by (simp add: wf_oa_def)
  then have p0: "0 < capacity_oa m" by (simp add: prime_int_def)
  have eq: "clear_oa m = clear_oa (m\<lparr>capacity_oa := capacity_oa m\<rparr>)" by simp
  note cl = core_ok_cleared [OF p0, of m, folded eq]
  from cl p p0 show "wf_oa (clear_oa m)" by (simp add: wf_oa_def)
  from cl show "entries_oa (clear_oa m) = Map.empty" "no_tombstones (clear_oa m)"
    "hash_function_oa (clear_oa m) = hash_function_oa m" by simp_all
qed

lemma step_oa_spec:
  assumes wf: "wf_oa m" and st: "step_oa m operation = Some r"
  shows "\<exists>m'. r = Inr m' \<and> wf_oa m' \<and>
     entries_oa m' = model_step (entries_oa m) operation \<and>
     hash_function_oa m' = hash_function_oa m"
proof (cases operation)
  case (Put k v)
  with st have "put_oa m k v = Some r" by (simp add: step_oa_def)
  from put_oa_spec [OF wf this] Put show ?thesis by auto
next
  case (Get k)
  from wf have co: "core_ok m" by (simp add: wf_oa_def)
  from st Get obtain g where "get_oa m k = Some g" "r = (case g of Inl e \<Rightarrow> Inl e | Inr _ \<Rightarrow> Inr m)"
    by (auto simp: step_oa_def keep_def split: option.splits sum.splits)
  with get_oa_spec [OF co this(1)] wf Get show ?thesis by simp
next
  case (ContainsKey k)
  from wf have co: "core_ok m" by (simp add: wf_oa_def)
  from st ContainsKey obtain g where "contains_key_oa m k = Some g"
    "r = (case g of Inl e \<Rightarrow> Inl e | Inr _ \<Rightarrow> Inr m)"
    by (auto simp: step_oa_def keep_def split: option.splits sum.splits)
  with contains_key_oa_spec [OF co this(1)] wf ContainsKey show ?thesis by simp
next
  case (Remove k)
  from wf have co: "core_ok m" and pr: "prime_int (capacity_oa m)"
    and ld: "2 * size_oa m \<le> capacity_oa m + 1" by (simp_all add: wf_oa_def)
  from st Remove have "remove_oa m k = Some r" by (simp add: step_oa_def)
  from remove_oa_spec [OF co this] obtain m' where m': "r = Inr m'" "core_ok m'"
    "entries_oa m' = (entries_oa m)(k := None)" "capacity_oa m' = capacity_oa m"
    "hash_function_oa m' = hash_function_oa m"
    "size_oa m' = (if entries_oa m k = None then size_oa m else size_oa m - 1)" by blast
  then have "wf_oa m'" using pr ld by (simp add: wf_oa_def split: if_splits)
  with m' Remove show ?thesis by simp
next
  case Clear
  with st wf_oa_clear [OF wf] show ?thesis by (auto simp: step_oa_def)
next
  case (ResizeTable n)
  with st resize_table_oa_spec [OF wf, of n] show ?thesis by (auto simp: step_oa_def)
qed

lemma exec_oa_refines:
  assumes "wf_oa m" "exec_oa m operations = Some r"
  shows "\<exists>m'. r = Inr m' \<and> wf_oa m' \<and>
     entries_oa m' = model_run (entries_oa m) operations \<and>
     hash_function_oa m' = hash_function_oa m"
  using assms
proof (induction operations arbitrary: m)
  case Nil
  then show ?case by auto
next
  case (Cons operation operations)
  from Cons.prems(2) obtain r1 where r1: "step_oa m operation = Some r1"
    by (auto split: option.splits)
  from step_oa_spec [OF Cons.prems(1) r1] obtain m1 where m1: "r1 = Inr m1" "wf_oa m1"
    "entries_oa m1 = model_step (entries_oa m) operation"
    "hash_function_oa m1 = hash_function_oa m" by blast
  with Cons.prems(2) r1 have "exec_oa m1 operations = Some r" by simp
  from Cons.IH [OF m1(2) this] m1 show ?case by auto
qed

lemma exec_oa_grows_returns:
  assumes "wf_oa m" "no_tombstones m" "\<forall>operation\<in>set operations. grows operation"
  shows "\<exists>m'. exec_oa m operations = Some (Inr m')"
  using assms
proof (induction operations arbitrary: m)
  case Nil
  then show ?case by simp
next
  case (Cons operation operations)
  have "\<exists>m1. step_oa m operation = Some (Inr m1) \<and> wf_oa m1 \<and> no_tombstones m1"
  proof (cases operation)
    case (Put k v)
    from put_oa_returns [OF Cons.prems(1,2), of k v] obtain r where r: "put_oa m k v = Some r" ..
    from put_oa_spec [OF Cons.prems(1) r] Cons.prems(2) r Put show ?thesis
      by (auto simp: step_oa_def)
  next
    case (ResizeTable n)
    from resize_table_oa_spec [OF Cons.prems(1), of n] obtain m1 where
      m1: "resize_table_oa m n = Some (Inr m1)" "wf_oa m1" "n < size_oa m \<longrightarrow> m1 = m"
      "size_oa m \<le> n \<longrightarrow> no_tombstones m1" by blast
    have "no_tombstones m1" using m1(3,4) Cons.prems(2) by (cases "n < size_oa m") auto
    with m1 ResizeTable show ?thesis by (auto simp: step_oa_def)
  qed (use Cons.prems(3) in auto)
  then obtain m1 where m1: "step_oa m operation = Some (Inr m1)" "wf_oa m1" "no_tombstones m1"
    by blast
  from Cons.IH [OF m1(2,3)] Cons.prems(3) m1(1) show ?case by simp
qed

lemma HashMap_oa_wf:
  assumes "0 \<le> capacity"
  shows "\<exists>m0. HashMap_oa capacity hash = Some m0 \<and> wf_oa m0 \<and> no_tombstones m0 \<and>
     entries_oa m0 = Map.empty \<and> hash_function_oa m0 = hash"
proof -
  from next_prime_total [of capacity] obtain p where p: "next_prime capacity = Some p"
    "is_prime p" "capacity \<le> p" by blast
  have "p \<noteq> 0" using p(2) by (auto simp: is_prime_def)
  with assms p(3) have "1 \<le> p" by simp
  with p(2) have pr: "prime_int p" by (simp add: is_prime_iff_prime_int)
  then have p0: "0 < p" by (simp add: prime_int_def)
  let ?m = "\<lparr>buckets_oa = replicate (nat p) None, capacity_oa = p,
      hash_function_oa = hash, size_oa = 0\<rparr> :: ('a, 'b) hash_map_oa"
  have eq: "?m = clear_oa (?m\<lparr>capacity_oa := p\<rparr>)" by (simp add: clear_oa_def)
  note cl = core_ok_cleared [OF p0, of ?m, folded eq]
  have "wf_oa ?m" using cl(1) pr p0 by (simp add: wf_oa_def)
  with cl p(1) show ?thesis by (simp add: HashMap_oa_def)
qed

section \<open>Separate chaining: what each operation does\<close>

definition wf_sc :: "('k, 'v) hash_map_sc \<Rightarrow> bool" where
  "wf_sc m \<longleftrightarrow>
     0 < capacity_sc m \<and> length (buckets_sc m) = nat (capacity_sc m) \<and>
     size_sc m = int (length (concat (buckets_sc m))) \<and>
     (\<forall>i<length (buckets_sc m).
        (\<forall>node\<in>set (buckets_sc m ! i).
           hash_function_sc m (fst node) mod capacity_sc m = int i) \<and>
        distinct (map fst (buckets_sc m ! i)))"

definition entries_sc :: "('k, 'v) hash_map_sc \<Rightarrow> 'k \<Rightarrow> 'v option" where
  "entries_sc m = map_of (concat (buckets_sc m))"

subsection \<open>Chains\<close>

lemma ll_contains_map_of: "map_option snd (ll_contains chain k) = map_of chain k"
  by (induction chain) (auto simp: ll_contains_def)

lemma ll_contains_None: "ll_contains chain k = None \<longleftrightarrow> map_of chain k = None"
  by (induction chain) (auto simp: ll_contains_def)

lemma ll_set_value_keys [simp]: "map fst (ll_set_value chain k v) = map fst chain"
  by (induction chain) auto

lemma ll_set_value_map_of:
  "map_of chain k \<noteq> None \<Longrightarrow> map_of (ll_set_value chain k v) = (map_of chain)(k \<mapsto> v)"
  by (induction chain) (auto simp: fun_eq_iff)

lemma ll_insert_map_of:
  "map_of chain k = None \<Longrightarrow> map_of (ll_insert chain k v) = (map_of chain)(k \<mapsto> v)"
  by (auto simp: ll_insert_def fun_eq_iff map_add_def split: option.splits)

lemma ll_remove_spec:
  "distinct (map fst chain) \<Longrightarrow> ll_remove chain k = (chain', found) \<Longrightarrow>
     found = (map_of chain k \<noteq> None) \<and> map_of chain' = (map_of chain)(k := None) \<and>
     set chain' \<subseteq> set chain \<and> distinct (map fst chain') \<and>
     int (length chain') = int (length chain) - (if found then 1 else 0) \<and>
     (\<not> found \<longrightarrow> chain' = chain)"
proof (induction chain arbitrary: chain' found)
  case Nil
  then show ?case by auto
next
  case (Cons node rest)
  show ?case
  proof (cases "fst node = k")
    case True
    with Cons.prems have c: "chain' = rest" "found" by auto
    from Cons.prems(1) True have "k \<notin> fst ` set rest" by auto
    then have "map_of rest k = None" by (simp add: map_of_eq_None_iff)
    have mo: "map_of chain' = (map_of (node # rest))(k := None)"
    proof (rule ext)
      fix x show "map_of chain' x = ((map_of (node # rest))(k := None)) x"
        using True \<open>map_of rest k = None\<close> c by (cases node) auto
    qed
    have fo: "found = (map_of (node # rest) k \<noteq> None)" using True c by (cases node) auto
    have "set chain' \<subseteq> set (node # rest)" "distinct (map fst chain')"
      "int (length chain') = int (length (node # rest)) - (if found then 1 else 0)"
      "\<not> found \<longrightarrow> chain' = node # rest"
      using c Cons.prems(1) by auto
    with mo fo show ?thesis by blast
  next
    case False
    obtain rest' f where r: "ll_remove rest k = (rest', f)" by (cases "ll_remove rest k")
    with Cons.prems False have c: "chain' = node # rest'" "found = f" by auto
    from Cons.prems(1) have "distinct (map fst rest)" by simp
    note IH = Cons.IH [OF this r]
    from IH have ih1: "f = (map_of rest k \<noteq> None)" by (rule conjunct1)
    from IH have ih2: "map_of rest' = (map_of rest)(k := None)" by blast
    from IH have ih3: "set rest' \<subseteq> set rest" by blast
    from IH have ih4: "distinct (map fst rest')" by blast
    from IH have ih5: "int (length rest') = int (length rest) - (if f then 1 else 0)" by blast
    from IH have ih6: "\<not> f \<longrightarrow> rest' = rest" by blast
    have nn: "fst node \<notin> fst ` set rest'" using ih3 Cons.prems(1) by auto
    have fo: "found = (map_of (node # rest) k \<noteq> None)"
      using False ih1 c by (cases node) simp
    have mo: "map_of chain' = (map_of (node # rest))(k := None)"
    proof (rule ext)
      fix x show "map_of chain' x = ((map_of (node # rest))(k := None)) x"
        using False c ih2 by (cases node) simp
    qed
    have "set chain' \<subseteq> set (node # rest)" using c ih3 by auto
    moreover have "distinct (map fst chain')" using c ih4 nn by simp
    moreover have "int (length chain') = int (length (node # rest)) - (if found then 1 else 0)"
      using c ih5 by simp
    moreover have "\<not> found \<longrightarrow> chain' = node # rest" using c ih6 by simp
    ultimately show ?thesis using mo fo by blast
  qed
qed

subsection \<open>Bucket arrays of chains\<close>

lemma map_of_concat_bucket:
  "i < length bs \<Longrightarrow> (\<forall>j<length bs. j \<noteq> i \<longrightarrow> k \<notin> fst ` set (bs ! j)) \<Longrightarrow>
     map_of (concat bs) k = map_of (bs ! i) k"
proof (induction bs arbitrary: i)
  case Nil
  then show ?case by simp
next
  case (Cons b bs)
  show ?case
  proof (cases i)
    case 0
    have "k \<notin> fst ` set (concat bs)"
    proof
      assume "k \<in> fst ` set (concat bs)"
      then obtain c where "c \<in> set bs" "k \<in> fst ` set c" by auto
      then obtain j where "j < length bs" "bs ! j = c" by (auto simp: in_set_conv_nth)
      with Cons.prems(2) [rule_format, of "Suc j"] 0 \<open>k \<in> fst ` set c\<close> show False by simp
    qed
    then have "map_of (concat bs) k = None" by (simp add: map_of_eq_None_iff)
    with 0 show ?thesis by (simp add: map_add_def split: option.splits)
  next
    case (Suc i')
    from Cons.prems(2) [rule_format, of 0] Suc have "k \<notin> fst ` set b" by simp
    then have nb: "map_of b k = None" by (simp add: map_of_eq_None_iff)
    have "\<forall>j<length bs. j \<noteq> i' \<longrightarrow> k \<notin> fst ` set (bs ! j)"
    proof (intro allI impI)
      fix j assume "j < length bs" "j \<noteq> i'"
      with Cons.prems(2) [rule_format, of "Suc j"] Suc show "k \<notin> fst ` set (bs ! j)" by simp
    qed
    with Cons.IH [of i'] Cons.prems(1) Suc nb show ?thesis by (simp add: map_add_def)
  qed
qed

lemma distinct_concat_keys:
  "(\<forall>i<length bs. distinct (map fst (bs ! i))) \<Longrightarrow>
   (\<forall>i<length bs. \<forall>j<length bs. i \<noteq> j \<longrightarrow> fst ` set (bs ! i) \<inter> fst ` set (bs ! j) = {}) \<Longrightarrow>
   distinct (map fst (concat bs))"
proof (induction bs)
  case Nil
  then show ?case by simp
next
  case (Cons b bs)
  from Cons.prems(1) [rule_format, of 0] have db: "distinct (map fst b)" by simp
  have d1: "\<forall>i<length bs. distinct (map fst (bs ! i))"
  proof (intro allI impI)
    fix i assume "i < length bs"
    with Cons.prems(1) [rule_format, of "Suc i"] show "distinct (map fst (bs ! i))" by simp
  qed
  have d2: "\<forall>i<length bs. \<forall>j<length bs. i \<noteq> j \<longrightarrow> fst ` set (bs ! i) \<inter> fst ` set (bs ! j) = {}"
  proof (intro allI impI)
    fix i j assume "i < length bs" "j < length bs" "i \<noteq> j"
    with Cons.prems(2) [rule_format, of "Suc i" "Suc j"]
    show "fst ` set (bs ! i) \<inter> fst ` set (bs ! j) = {}" by simp
  qed
  have "fst ` set b \<inter> fst ` set (concat bs) = {}"
  proof (rule ccontr)
    assume "fst ` set b \<inter> fst ` set (concat bs) \<noteq> {}"
    then obtain k where k: "k \<in> fst ` set b" "k \<in> fst ` set (concat bs)" by blast
    then obtain c where "c \<in> set bs" "k \<in> fst ` set c" by auto
    then obtain j where "j < length bs" "bs ! j = c" by (auto simp: in_set_conv_nth)
    with Cons.prems(2) [rule_format, of 0 "Suc j"] k(1) \<open>k \<in> fst ` set c\<close> show False by auto
  qed
  with db Cons.IH [OF d1 d2] show ?case by simp
qed

lemma length_concat_update:
  "i < length bs \<Longrightarrow>
     length (concat (bs[i := c])) + length (bs ! i) = length (concat bs) + length c"
proof (induction bs arbitrary: i)
  case Nil
  then show ?case by simp
next
  case (Cons b bs)
  show ?case
  proof (cases i)
    case 0
    then show ?thesis by simp
  next
    case (Suc i')
    with Cons.prems have "i' < length bs" by simp
    from Cons.IH [OF this] Suc show ?thesis by simp
  qed
qed

lemma gkv_loop_sc:
  "i \<le> length bs \<Longrightarrow>
     get_keys_and_values_loop_sc bs [i..<length bs] arr = Inr (arr @ concat (drop i bs))"
proof (induction "length bs - i" arbitrary: i arr)
  case 0
  then show ?case by simp
next
  case (Suc d)
  then have lt: "i < length bs" by simp
  then have up: "[i..<length bs] = i # [Suc i..<length bs]" by (simp add: upt_conv_Cons)
  have dr: "drop i bs = bs ! i # drop (Suc i) bs" using lt by (simp add: Cons_nth_drop_Suc)
  have ih: "get_keys_and_values_loop_sc bs [Suc i..<length bs] arr' =
      Inr (arr' @ concat (drop (Suc i) bs))" for arr'
    using Suc.hyps(1) [of "Suc i" arr'] Suc.hyps(2) lt by simp
  show ?case using lt by (simp add: up dr ih da_get_def)
qed

lemma get_keys_and_values_sc_eq:
  "length (buckets_sc m) = nat (capacity_sc m) \<Longrightarrow>
     get_keys_and_values_sc m = Inr (concat (buckets_sc m))"
  using gkv_loop_sc [of 0 "buckets_sc m" "[]"] by (simp add: get_keys_and_values_sc_def)

subsection \<open>The invariant\<close>

definition index_sc :: "('k, 'v) hash_map_sc \<Rightarrow> 'k \<Rightarrow> nat" where
  "index_sc m k = nat (hash_function_sc m k mod capacity_sc m)"

lemma index_sc_range:
  "wf_sc m \<Longrightarrow> index_sc m k < length (buckets_sc m) \<and>
     int (index_sc m k) = hash_function_sc m k mod capacity_sc m"
  by (auto simp: wf_sc_def index_sc_def)

lemma wf_sc_hash:
  "wf_sc m \<Longrightarrow> i < length (buckets_sc m) \<Longrightarrow> node \<in> set (buckets_sc m ! i) \<Longrightarrow>
     hash_function_sc m (fst node) mod capacity_sc m = int i"
  unfolding wf_sc_def by fast

lemma find_chain_sc_wf:
  "wf_sc m \<Longrightarrow>
     find_chain_sc m k =
       Inr (hash_function_sc m k mod capacity_sc m, buckets_sc m ! index_sc m k)"
  using index_sc_range [of m k]
  by (auto simp: find_chain_sc_def wf_sc_def da_get_def index_sc_def Let_def)

lemma wf_sc_key_bucket:
  assumes "wf_sc m" "j < length (buckets_sc m)" "k \<in> fst ` set (buckets_sc m ! j)"
  shows "j = index_sc m k"
proof -
  from assms(3) obtain node where "node \<in> set (buckets_sc m ! j)" "fst node = k" by auto
  with wf_sc_hash [OF assms(1,2)] have "hash_function_sc m k mod capacity_sc m = int j"
    by blast
  then show ?thesis by (simp add: index_sc_def)
qed

lemma entries_sc_bucket:
  assumes "wf_sc m"
  shows "entries_sc m k = map_of (buckets_sc m ! index_sc m k) k"
  unfolding entries_sc_def
proof (rule map_of_concat_bucket)
  show "index_sc m k < length (buckets_sc m)" using index_sc_range [OF assms] by simp
  show "\<forall>j<length (buckets_sc m). j \<noteq> index_sc m k \<longrightarrow> k \<notin> fst ` set (buckets_sc m ! j)"
    using wf_sc_key_bucket [OF assms] by blast
qed

lemma wf_sc_distinct:
  assumes "wf_sc m"
  shows "distinct (map fst (concat (buckets_sc m)))"
proof (rule distinct_concat_keys)
  show "\<forall>i<length (buckets_sc m). distinct (map fst (buckets_sc m ! i))"
    using assms by (simp add: wf_sc_def)
  show "\<forall>i<length (buckets_sc m). \<forall>j<length (buckets_sc m). i \<noteq> j \<longrightarrow>
      fst ` set (buckets_sc m ! i) \<inter> fst ` set (buckets_sc m ! j) = {}"
  proof (intro allI impI)
    fix i j assume ij: "i < length (buckets_sc m)" "j < length (buckets_sc m)" "i \<noteq> j"
    show "fst ` set (buckets_sc m ! i) \<inter> fst ` set (buckets_sc m ! j) = {}"
    proof (rule ccontr)
      assume "fst ` set (buckets_sc m ! i) \<inter> fst ` set (buckets_sc m ! j) \<noteq> {}"
      then obtain k where "k \<in> fst ` set (buckets_sc m ! i)" "k \<in> fst ` set (buckets_sc m ! j)"
        by blast
      with wf_sc_key_bucket [OF assms] ij show False by metis
    qed
  qed
qed

lemma wf_sc_size_card:
  assumes "wf_sc m"
  shows "size_sc m = int (card (dom (entries_sc m)))"
proof -
  have "card (dom (entries_sc m)) = card (set (map fst (concat (buckets_sc m))))"
    by (simp add: entries_sc_def dom_map_of_conv_image_fst)
  also have "\<dots> = length (concat (buckets_sc m))"
    using distinct_card [OF wf_sc_distinct [OF assms]] by simp
  finally show ?thesis using assms by (simp add: wf_sc_def)
qed

lemma chain_update:
  fixes m :: "('k, 'v) hash_map_sc"
  assumes wf: "wf_sc m"
    and d: "distinct (map fst c)"
    and keys: "fst ` set c \<subseteq> insert k (fst ` set (buckets_sc m ! index_sc m k))"
    and other: "\<And>k2. k2 \<noteq> k \<Longrightarrow> map_of c k2 = map_of (buckets_sc m ! index_sc m k) k2"
    and m': "m' = m\<lparr>buckets_sc := (buckets_sc m)[index_sc m k := c],
      size_sc := size_sc m + int (length c) - int (length (buckets_sc m ! index_sc m k))\<rparr>"
  shows "wf_sc m'" and "entries_sc m' = (entries_sc m)(k := map_of c k)"
proof -
  let ?i = "index_sc m k"
  note ir = index_sc_range [OF wf, of k]
  have idx: "index_sc m' = index_sc m" by (simp add: index_sc_def m' fun_eq_iff)
  have sz: "size_sc m' = int (length (concat (buckets_sc m')))"
    using length_concat_update [of ?i "buckets_sc m" c] ir wf by (simp add: m' wf_sc_def)
  have props: "(\<forall>node\<in>set (buckets_sc m' ! j).
           hash_function_sc m' (fst node) mod capacity_sc m' = int j) \<and>
        distinct (map fst (buckets_sc m' ! j))" if j: "j < length (buckets_sc m)" for j
  proof (cases "j = ?i")
    case True
    have "hash_function_sc m (fst node) mod capacity_sc m = int ?i" if "node \<in> set c" for node
    proof (cases "fst node = k")
      case True
      with ir show ?thesis by simp
    next
      case False
      with keys that have "fst node \<in> fst ` set (buckets_sc m ! ?i)" by auto
      then obtain node' where n': "node' \<in> set (buckets_sc m ! ?i)" "fst node' = fst node"
        by auto
      from wf_sc_hash [OF wf _ n'(1)] ir n'(2) show ?thesis by simp
    qed
    with True d ir show ?thesis by (simp add: m')
  next
    case False
    with wf j show ?thesis by (simp add: m' wf_sc_def)
  qed
  from wf sz props show wf': "wf_sc m'" by (simp add: wf_sc_def m')
  show "entries_sc m' = (entries_sc m)(k := map_of c k)"
  proof (rule ext)
    fix k2
    show "entries_sc m' k2 = ((entries_sc m)(k := map_of c k)) k2"
    proof (cases "index_sc m k2 = ?i")
      case True
      have "buckets_sc m' ! ?i = c" using ir by (simp add: m')
      with True have "entries_sc m' k2 = map_of c k2"
        by (simp only: entries_sc_bucket [OF wf'] idx)
      with other [of k2] True show ?thesis
        by (cases "k2 = k") (simp_all add: entries_sc_bucket [OF wf])
    next
      case False
      then have "k2 \<noteq> k" by auto
      have "buckets_sc m' ! index_sc m k2 = buckets_sc m ! index_sc m k2"
        using False by (simp add: m')
      then have "entries_sc m' k2 = entries_sc m k2"
        by (simp only: entries_sc_bucket [OF wf'] entries_sc_bucket [OF wf] idx)
      with \<open>k2 \<noteq> k\<close> show ?thesis by simp
    qed
  qed
qed

lemma chain_update_as:
  fixes m :: "('k, 'v) hash_map_sc"
  assumes "wf_sc m" "distinct (map fst c)"
    and "fst ` set c \<subseteq> insert k (fst ` set (buckets_sc m ! index_sc m k))"
    and "\<And>k2. k2 \<noteq> k \<Longrightarrow> map_of c k2 = map_of (buckets_sc m ! index_sc m k) k2"
    and "int (index_sc m k) = index"
    and "s = size_sc m + int (length c) - int (length (buckets_sc m ! index_sc m k))"
  shows "wf_sc (m\<lparr>buckets_sc := (buckets_sc m)[nat index := c], size_sc := s\<rparr>)"
    and "entries_sc (m\<lparr>buckets_sc := (buckets_sc m)[nat index := c], size_sc := s\<rparr>) =
      (entries_sc m)(k := map_of c k)"
proof -
  have eq: "m\<lparr>buckets_sc := (buckets_sc m)[nat index := c], size_sc := s\<rparr> =
    m\<lparr>buckets_sc := (buckets_sc m)[index_sc m k := c],
      size_sc := size_sc m + int (length c) - int (length (buckets_sc m ! index_sc m k))\<rparr>"
    using assms(5,6) by auto
  from chain_update [OF assms(1-4) eq]
  show "wf_sc (m\<lparr>buckets_sc := (buckets_sc m)[nat index := c], size_sc := s\<rparr>)"
    and "entries_sc (m\<lparr>buckets_sc := (buckets_sc m)[nat index := c], size_sc := s\<rparr>) =
      (entries_sc m)(k := map_of c k)" by blast+
qed

lemma put_sc_spec:
  assumes wf: "wf_sc m"
  shows "\<exists>m'. put_sc m k v = Inr m' \<and> wf_sc m' \<and> entries_sc m' = (entries_sc m)(k \<mapsto> v) \<and>
     capacity_sc m' = capacity_sc m \<and> hash_function_sc m' = hash_function_sc m \<and>
     size_sc m' = (if entries_sc m k = None then size_sc m + 1 else size_sc m)"
proof -
  let ?i = "index_sc m k"
  let ?b = "buckets_sc m ! ?i"
  note ir = index_sc_range [OF wf, of k]
  note fc = find_chain_sc_wf [OF wf, of k]
  note en = entries_sc_bucket [OF wf, of k]
  from wf ir have db: "distinct (map fst ?b)" by (simp add: wf_sc_def)
  show ?thesis
  proof (cases "ll_contains ?b k")
    case None
    then have mn: "map_of ?b k = None" by (simp add: ll_contains_None)
    then have nk: "k \<notin> fst ` set ?b" by (simp add: map_of_eq_None_iff)
    let ?c = "ll_insert ?b k v"
    let ?m' = "m\<lparr>buckets_sc := (buckets_sc m)[nat (hash_function_sc m k mod capacity_sc m) := ?c],
      size_sc := size_sc m + 1\<rparr>"
    have mo: "map_of ?c = (map_of ?b)(k \<mapsto> v)" using mn by (rule ll_insert_map_of)
    have 1: "distinct (map fst ?c)" using db nk by (simp add: ll_insert_def)
    have 2: "fst ` set ?c \<subseteq> insert k (fst ` set ?b)" by (auto simp: ll_insert_def)
    have 3: "\<And>k2. k2 \<noteq> k \<Longrightarrow> map_of ?c k2 = map_of ?b k2" by (simp add: mo)
    have 4: "size_sc m + 1 = size_sc m + int (length ?c) - int (length ?b)"
      by (simp add: ll_insert_def)
    note cu = chain_update_as [OF wf 1 2 3 _ 4, of "hash_function_sc m k mod capacity_sc m"]
    have "put_sc m k v = Inr ?m'" using None by (simp add: put_sc_def fc)
    moreover have "wf_sc ?m'" using cu(1) ir by simp
    moreover have "entries_sc ?m' = (entries_sc m)(k \<mapsto> v)" using cu(2) ir by (simp add: mo)
    moreover have "entries_sc m k = None" using en mn by simp
    ultimately show ?thesis by simp
  next
    case (Some node)
    then have mn: "map_of ?b k \<noteq> None" using ll_contains_None [of ?b k] by simp
    let ?c = "ll_set_value ?b k v"
    let ?m' = "m\<lparr>buckets_sc := (buckets_sc m)[nat (hash_function_sc m k mod capacity_sc m) := ?c]\<rparr>"
    have mo: "map_of ?c = (map_of ?b)(k \<mapsto> v)" using mn by (rule ll_set_value_map_of)
    have 1: "distinct (map fst ?c)" using db by simp
    have "fst ` set ?c = fst ` set ?b" by (metis ll_set_value_keys set_map)
    then have 2: "fst ` set ?c \<subseteq> insert k (fst ` set ?b)" by (simp add: subset_insertI)
    have 3: "\<And>k2. k2 \<noteq> k \<Longrightarrow> map_of ?c k2 = map_of ?b k2" by (simp add: mo)
    have "length ?c = length ?b" by (metis ll_set_value_keys length_map)
    then have 4: "size_sc m = size_sc m + int (length ?c) - int (length ?b)" by simp
    note cu = chain_update_as [OF wf 1 2 3 _ 4, of "hash_function_sc m k mod capacity_sc m"]
    have "put_sc m k v = Inr ?m'" using Some by (simp add: put_sc_def fc)
    moreover have "wf_sc ?m'" using cu(1) ir by simp
    moreover have "entries_sc ?m' = (entries_sc m)(k \<mapsto> v)" using cu(2) ir by (simp add: mo)
    moreover have "entries_sc m k \<noteq> None" using en mn by simp
    ultimately show ?thesis by simp
  qed
qed

lemma get_sc_spec:
  assumes wf: "wf_sc m"
  shows "get_sc m k = Inr (entries_sc m k)"
  using ll_contains_map_of [of "buckets_sc m ! index_sc m k" k]
  by (auto simp: get_sc_def find_chain_sc_wf [OF wf] entries_sc_bucket [OF wf]
      split: option.splits)

lemma contains_key_sc_spec:
  assumes wf: "wf_sc m"
  shows "contains_key_sc m k = Inr (entries_sc m k \<noteq> None)"
  using ll_contains_None [of "buckets_sc m ! index_sc m k" k]
  by (simp add: contains_key_sc_def find_chain_sc_wf [OF wf] entries_sc_bucket [OF wf]
      del: not_None_eq)

lemma remove_sc_spec:
  assumes wf: "wf_sc m"
  shows "\<exists>m'. remove_sc m k = Inr m' \<and> wf_sc m' \<and> entries_sc m' = (entries_sc m)(k := None) \<and>
     capacity_sc m' = capacity_sc m \<and> hash_function_sc m' = hash_function_sc m \<and>
     size_sc m' = (if entries_sc m k = None then size_sc m else size_sc m - 1) \<and>
     (entries_sc m k = None \<longrightarrow> m' = m) \<and> contains_key_sc m' k = Inr False"
proof -
  let ?i = "index_sc m k"
  let ?b = "buckets_sc m ! ?i"
  note ir = index_sc_range [OF wf, of k]
  note fc = find_chain_sc_wf [OF wf, of k]
  note en = entries_sc_bucket [OF wf, of k]
  from wf ir have db: "distinct (map fst ?b)" by (simp add: wf_sc_def)
  obtain c found where lr: "ll_remove ?b k = (c, found)" by (cases "ll_remove ?b k")
  note sp = ll_remove_spec [OF db lr]
  from sp have fo: "found = (map_of ?b k \<noteq> None)" by (rule conjunct1)
  from sp have mo: "map_of c = (map_of ?b)(k := None)" by blast
  from sp have sub: "set c \<subseteq> set ?b" by blast
  from sp have dc: "distinct (map fst c)" by blast
  from sp have len: "int (length c) = int (length ?b) - (if found then 1 else 0)" by blast
  from sp have same: "\<not> found \<longrightarrow> c = ?b" by blast
  show ?thesis
  proof (cases found)
    case True
    let ?m' = "m\<lparr>buckets_sc := (buckets_sc m)[nat (hash_function_sc m k mod capacity_sc m) := c],
      size_sc := size_sc m - 1\<rparr>"
    have 2: "fst ` set c \<subseteq> insert k (fst ` set ?b)" using sub by auto
    have 3: "\<And>k2. k2 \<noteq> k \<Longrightarrow> map_of c k2 = map_of ?b k2" by (simp add: mo)
    have 4: "size_sc m - 1 = size_sc m + int (length c) - int (length ?b)"
      using len True by simp
    note cu = chain_update_as [OF wf dc 2 3 _ 4, of "hash_function_sc m k mod capacity_sc m"]
    have r: "remove_sc m k = Inr ?m'" using True lr by (simp add: remove_sc_def fc)
    have wf': "wf_sc ?m'" using cu(1) ir by simp
    have en': "entries_sc ?m' = (entries_sc m)(k := None)" using cu(2) ir by (simp add: mo)
    have "contains_key_sc ?m' k = Inr False"
      using contains_key_sc_spec [OF wf', of k] en' by simp
    moreover have "\<not> entries_sc m k = None" using en fo True by simp
    moreover have "capacity_sc ?m' = capacity_sc m" "hash_function_sc ?m' = hash_function_sc m"
      "size_sc ?m' = size_sc m - 1" by simp_all
    ultimately show ?thesis using r wf' en'
      by (intro exI [of _ ?m']) (simp only: simp_thms if_False)
  next
    case False
    have r: "remove_sc m k = Inr m" using False lr by (simp add: remove_sc_def fc)
    have e: "entries_sc m k = None" using en fo False by simp
    then have "(entries_sc m)(k := None) = entries_sc m" by (simp add: fun_upd_idem)
    moreover have "contains_key_sc m k = Inr False"
      using contains_key_sc_spec [OF wf, of k] e by simp
    ultimately show ?thesis using r wf e by simp
  qed
qed

lemma wf_sc_cleared:
  assumes "0 < p"
  shows "wf_sc (clear_sc (m\<lparr>capacity_sc := p\<rparr>))"
    and "entries_sc (clear_sc (m\<lparr>capacity_sc := p\<rparr>)) = Map.empty"
    and "capacity_sc (clear_sc (m\<lparr>capacity_sc := p\<rparr>)) = p"
    and "hash_function_sc (clear_sc (m\<lparr>capacity_sc := p\<rparr>)) = hash_function_sc m"
  using assms by (simp_all add: wf_sc_def clear_sc_def entries_sc_def)

lemma reinsert_sc_spec:
  assumes "wf_sc m"
  shows "\<exists>m'. reinsert_sc m kvs = Inr m' \<and> wf_sc m' \<and>
     entries_sc m' = put_all (entries_sc m) kvs \<and>
     capacity_sc m' = capacity_sc m \<and> hash_function_sc m' = hash_function_sc m"
  using assms
proof (induction kvs arbitrary: m)
  case Nil
  then show ?case by simp
next
  case (Cons kv kvs)
  obtain k v where kv: "kv = (k, v)" by (cases kv)
  from put_sc_spec [OF Cons.prems, of k v] obtain m1 where m1: "put_sc m k v = Inr m1"
    "wf_sc m1" "entries_sc m1 = (entries_sc m)(k \<mapsto> v)" "capacity_sc m1 = capacity_sc m"
    "hash_function_sc m1 = hash_function_sc m" by blast
  from Cons.IH [OF m1(2)] obtain m' where "reinsert_sc m1 kvs = Inr m'" "wf_sc m'"
    "entries_sc m' = put_all (entries_sc m1) kvs" "capacity_sc m' = capacity_sc m1"
    "hash_function_sc m' = hash_function_sc m1" by blast
  with m1 kv show ?case by simp
qed

lemma resize_table_sc_spec:
  assumes wf: "wf_sc m"
  shows "\<exists>m'. resize_table_sc m n = Some (Inr m') \<and> wf_sc m' \<and>
     entries_sc m' = entries_sc m \<and> hash_function_sc m' = hash_function_sc m \<and>
     size_sc m' = size_sc m \<and> (n < 1 \<longrightarrow> m' = m) \<and>
     (1 \<le> n \<longrightarrow> (if \<not> is_prime n then next_prime n else Some n) = Some (capacity_sc m') \<and>
        prime_int (capacity_sc m') \<and> n \<le> capacity_sc m')"
proof (cases "n < 1")
  case True
  with wf show ?thesis by (simp add: resize_table_sc_def)
next
  case False
  then have "0 \<le> n" by simp
  from normalise_capacity [OF this] obtain p where
    p: "(if \<not> is_prime n then next_prime n else Some n) = Some p" "prime_int p" "n \<le> p"
    by blast
  from p(2) have p0: "0 < p" by (simp add: prime_int_def)
  let ?m0 = "clear_sc (m\<lparr>capacity_sc := p\<rparr>)"
  note cl = wf_sc_cleared [OF p0, of m]
  have gk: "get_keys_and_values_sc m = Inr (concat (buckets_sc m))"
    using wf by (intro get_keys_and_values_sc_eq) (simp add: wf_sc_def)
  from reinsert_sc_spec [OF cl(1), of "concat (buckets_sc m)"] obtain m' where m':
    "reinsert_sc ?m0 (concat (buckets_sc m)) = Inr m'" "wf_sc m'"
    "entries_sc m' = put_all (entries_sc ?m0) (concat (buckets_sc m))"
    "capacity_sc m' = capacity_sc ?m0" "hash_function_sc m' = hash_function_sc ?m0" by blast
  have "entries_sc m' = put_all Map.empty (concat (buckets_sc m))"
    using m'(3) by (simp only: cl(2))
  then have en: "entries_sc m' = entries_sc m"
    using put_all_distinct [OF wf_sc_distinct [OF wf], of Map.empty]
    by (simp add: entries_sc_def)
  have "size_sc m' = size_sc m"
    using wf_sc_size_card [OF m'(2)] wf_sc_size_card [OF wf] en by simp
  moreover have "resize_table_sc m n = Some (Inr m')"
    using False p(1) gk m'(1) by (simp add: resize_table_sc_def)
  ultimately show ?thesis using False m' en p by (simp add: cl)
qed

lemma step_sc_spec:
  assumes wf: "wf_sc m"
  shows "\<exists>m'. step_sc m operation = Some (Inr m') \<and> wf_sc m' \<and>
     entries_sc m' = model_step (entries_sc m) operation \<and>
     hash_function_sc m' = hash_function_sc m"
proof (cases operation)
  case (Put k v)
  with put_sc_spec [OF wf, of k v] show ?thesis by (auto simp: step_sc_def)
next
  case (Get k)
  with get_sc_spec [OF wf, of k] wf show ?thesis by (simp add: step_sc_def keep_def)
next
  case (ContainsKey k)
  with contains_key_sc_spec [OF wf, of k] wf show ?thesis by (simp add: step_sc_def keep_def)
next
  case (Remove k)
  with remove_sc_spec [OF wf, of k] show ?thesis by (auto simp: step_sc_def)
next
  case Clear
  from wf have p0: "0 < capacity_sc m" by (simp add: wf_sc_def)
  have eq: "clear_sc m = clear_sc (m\<lparr>capacity_sc := capacity_sc m\<rparr>)" by simp
  note cl = wf_sc_cleared [OF p0, of m, folded eq]
  with Clear show ?thesis by (simp add: step_sc_def)
next
  case (ResizeTable n)
  with resize_table_sc_spec [OF wf, of n] show ?thesis by (auto simp: step_sc_def)
qed

lemma exec_sc_refines:
  assumes "wf_sc m"
  shows "\<exists>m'. exec_sc m operations = Some (Inr m') \<and> wf_sc m' \<and>
     entries_sc m' = model_run (entries_sc m) operations \<and>
     hash_function_sc m' = hash_function_sc m"
  using assms
proof (induction operations arbitrary: m)
  case Nil
  then show ?case by simp
next
  case (Cons operation operations)
  from step_sc_spec [OF Cons.prems, of operation] obtain m1 where
    m1: "step_sc m operation = Some (Inr m1)" "wf_sc m1"
    "entries_sc m1 = model_step (entries_sc m) operation"
    "hash_function_sc m1 = hash_function_sc m" by blast
  from Cons.IH [OF m1(2)] m1 show ?case by auto
qed

lemma HashMap_sc_wf:
  assumes "0 \<le> capacity"
  shows "\<exists>m0. HashMap_sc capacity hash = Some m0 \<and> wf_sc m0 \<and>
     entries_sc m0 = Map.empty \<and> hash_function_sc m0 = hash"
proof -
  from next_prime_total [of capacity] obtain p where p: "next_prime capacity = Some p"
    "is_prime p" "capacity \<le> p" by blast
  have "p \<noteq> 0" using p(2) by (auto simp: is_prime_def)
  with assms p(3) have p0: "0 < p" by simp
  let ?m = "\<lparr>buckets_sc = replicate (nat p) [], capacity_sc = p,
      hash_function_sc = hash, size_sc = 0\<rparr> :: ('a, 'b) hash_map_sc"
  have eq: "?m = clear_sc (?m\<lparr>capacity_sc := p\<rparr>)" by (simp add: clear_sc_def)
  note cl = wf_sc_cleared [OF p0, of ?m, folded eq]
  with p(1) show ?thesis by (simp add: HashMap_sc_def)
qed

section \<open>The claims\<close>

text \<open>
  Claim C6. For every integer \<open>n \<ge> 1\<close>, \<open>_next_prime(n)\<close> returns (the search ends) a prime
  \<open>p \<ge> n\<close>: an even \<open>n\<close> is first incremented to the next odd value and the candidate
  then steps by 2, so no odd number between the starting value and \<open>p\<close> is prime; and
  \<open>_is_prime(n)\<close> is true exactly when \<open>n\<close> is prime. In particular
  \<open>next_prime(4) = 5\<close>, \<open>next_prime(11) = 11\<close>, \<open>is_prime(1)\<close> is false and
  \<open>is_prime(2)\<close> is true.
\<close>

theorem capacity_manager_correct:
  assumes "1 \<le> n"
  shows "(\<exists>p. next_prime n = Some p \<and> prime_int p \<and> n \<le> p \<and>
            (\<forall>j. (if n mod 2 = 0 then n + 1 else n) \<le> j \<and> j < p \<and> j mod 2 = 1
                 \<longrightarrow> \<not> prime_int j)) \<and>
         (is_prime n \<longleftrightarrow> prime_int n) \<and>
         next_prime 4 = Some 5 \<and> next_prime 11 = Some 11 \<and> \<not> is_prime 1 \<and> is_prime 2"
proof -
  from next_prime_total [of n] obtain q where q: "next_prime n = Some q" "is_prime q" "n \<le> q"
    "\<forall>j. (if n mod 2 = 0 then n + 1 else n) \<le> j \<and> j < q \<and> j mod 2 = 1 \<longrightarrow> \<not> is_prime j"
    by blast
  from assms q(3) have "1 \<le> q" by simp
  with q(2) have pq: "prime_int q" by (simp add: is_prime_iff_prime_int)
  have mn: "\<forall>j. (if n mod 2 = 0 then n + 1 else n) \<le> j \<and> j < q \<and> j mod 2 = 1
      \<longrightarrow> \<not> prime_int j"
  proof (intro allI impI)
    fix j assume j: "(if n mod 2 = 0 then n + 1 else n) \<le> j \<and> j < q \<and> j mod 2 = 1"
    with assms have "1 \<le> j" by (simp split: if_splits)
    then have "is_prime j \<longleftrightarrow> prime_int j" by (rule is_prime_iff_prime_int)
    moreover from q(4) j have "\<not> is_prime j" by blast
    ultimately show "\<not> prime_int j" by simp
  qed
  have 1: "\<exists>p. next_prime n = Some p \<and> prime_int p \<and> n \<le> p \<and>
            (\<forall>j. (if n mod 2 = 0 then n + 1 else n) \<le> j \<and> j < p \<and> j mod 2 = 1
                 \<longrightarrow> \<not> prime_int j)"
    using q(1,3) pq mn by blast
  have 2: "is_prime n \<longleftrightarrow> prime_int n" using assms by (rule is_prime_iff_prime_int)
  have 3: "next_prime 4 = Some 5"
    by (simp add: next_prime_def next_prime_loop.simps is_prime_def is_prime_loop.simps)
  have 4: "next_prime 11 = Some 11"
    by (simp add: next_prime_def next_prime_loop.simps is_prime_def is_prime_loop.simps)
  have 5: "\<not> is_prime 1" "is_prime 2" by (simp_all add: is_prime_def)
  from 1 2 3 4 5 show ?thesis by blast
qed

theorem capacity_manager_correct_witness:
  "(1::int) \<le> 90 \<and> next_prime 90 = Some 97 \<and> prime_int 97 \<and>
   (\<exists>p. next_prime 90 = Some p \<and> prime_int p \<and> 90 \<le> p \<and>
      (\<forall>j. (if (90::int) mod 2 = 0 then 90 + 1 else 90) \<le> j \<and> j < p \<and> j mod 2 = 1
           \<longrightarrow> \<not> prime_int j)) \<and>
   (is_prime 90 \<longleftrightarrow> prime_int 90)"
proof -
  have h: "(1::int) \<le> 90" by simp
  have e: "next_prime 90 = Some 97"
    by (simp add: next_prime_def next_prime_loop.simps is_prime_def is_prime_loop.simps)
  from capacity_manager_correct [OF h] e show ?thesis by auto
qed

text \<open>
  Claim C10. \<open>_is_prime(n)\<close> is true for every negative odd \<open>n\<close> (the loop condition
  \<open>3 ** 2 <= n\<close> is false at once, so the loop body never runs), \<open>_next_prime\<close> returns
  such an \<open>n\<close> unchanged, and the constructor of either variant, given a negative odd
  requested capacity, builds a map whose capacity field is that negative number and whose
  bucket array has no bucket.
\<close>

theorem negative_odd_capacity:
  assumes "n < 0" "n mod 2 = 1"
  shows "is_prime n \<and> \<not> (3::int) ^ 2 \<le> n \<and> next_prime n = Some n \<and>
     HashMap_oa n hash =
       Some \<lparr>buckets_oa = [], capacity_oa = n, hash_function_oa = hash, size_oa = 0\<rparr> \<and>
     HashMap_sc n hash =
       Some \<lparr>buckets_sc = [], capacity_sc = n, hash_function_sc = hash, size_sc = 0\<rparr>"
proof -
  from assms have ip: "is_prime n" by (rule is_prime_negative_odd)
  then have "next_prime_loop n = Some n" by (subst next_prime_loop.simps) simp
  with assms(2) have np: "next_prime n = Some n" by (simp add: next_prime_def)
  from assms(1) have "\<not> (3::int) ^ 2 \<le> n" by simp
  with ip np assms(1) show ?thesis by (simp add: HashMap_oa_def HashMap_sc_def)
qed

theorem negative_odd_capacity_witness:
  "(-3::int) < 0 \<and> (-3::int) mod 2 = 1 \<and> is_prime (-3) \<and> next_prime (-3) = Some (-3) \<and>
     HashMap_oa (-3) example_hash =
       Some (\<lparr>buckets_oa = [], capacity_oa = -3, hash_function_oa = example_hash,
              size_oa = 0\<rparr> :: (string, int) hash_map_oa)"
proof -
  have "is_prime (-3) \<and> \<not> (3::int) ^ 2 \<le> -3 \<and> next_prime (-3) = Some (-3) \<and>
     HashMap_oa (-3) example_hash =
       Some (\<lparr>buckets_oa = [], capacity_oa = -3, hash_function_oa = example_hash,
              size_oa = 0\<rparr> :: (string, int) hash_map_oa) \<and>
     HashMap_sc (-3) example_hash =
       Some (\<lparr>buckets_sc = [], capacity_sc = -3, hash_function_sc = example_hash,
              size_sc = 0\<rparr> :: (string, int) hash_map_sc)"
    by (rule negative_odd_capacity) simp_all
  then show ?thesis by simp
qed

text \<open>
  Claim C3. On a table whose bucket array has one slot per unit of its positive capacity,
  \<open>get_bucket_index\<close> starts at \<open>initial = hash(key) mod capacity\<close> (probe 0) and then
  visits \<open>(initial + j\<^sup>2) mod capacity\<close> for \<open>j = 1, 2, 3, ...\<close>; it returns the first
  index of that sequence whose slot is empty or holds an entry, live or tombstoned, with
  the target key (no earlier probe does), and whenever it returns, its result is that index.
\<close>

theorem get_bucket_index_probes:
  assumes "0 < capacity_oa m" "length (buckets_oa m) = nat (capacity_oa m)"
  shows "(first_stop m k n \<longrightarrow> get_bucket_index m k = Some (Inr (probe_index m k n))) \<and>
     (get_bucket_index m k = Some r \<longrightarrow> (\<exists>j. r = Inr (probe_index m k j) \<and> first_stop m k j)) \<and>
     probe_index m k 0 = hash_function_oa m k mod capacity_oa m \<and>
     probe_index m k n = (hash_function_oa m k mod capacity_oa m + int n ^ 2) mod capacity_oa m"
proof -
  from assms have sh: "shape_ok m" by (simp add: shape_ok_def)
  have "first_stop m k n \<longrightarrow> get_bucket_index m k = Some (Inr (probe_index m k n))"
    using get_bucket_index_first_stop [OF sh] by blast
  moreover have "get_bucket_index m k = Some r \<longrightarrow>
      (\<exists>j. r = Inr (probe_index m k j) \<and> first_stop m k j)"
    using get_bucket_index_result [OF sh] by blast
  moreover note probe_index_0 [OF sh, of k]
  moreover have "probe_index m k n =
      (hash_function_oa m k mod capacity_oa m + int n ^ 2) mod capacity_oa m"
    by (simp add: probe_index_def)
  ultimately show ?thesis by blast
qed

definition collision_example :: "(string, int) hash_map_oa" where
  "collision_example =
     \<lparr>buckets_oa = [None, None, Some (HashEntry ''a'' 1), None, None],
      capacity_oa = 5, hash_function_oa = example_hash, size_oa = 1\<rparr>"

text \<open>
  The collision scenario of the specification: capacity 5, \<open>''a''\<close> stored at its initial
  index 2, and \<open>''f''\<close> with the same initial index resolves to \<open>(2 + 1\<^sup>2) mod 5 = 3\<close>.
\<close>

theorem get_bucket_index_probes_witness:
  "0 < capacity_oa collision_example \<and>
   length (buckets_oa collision_example) = nat (capacity_oa collision_example) \<and>
   example_hash ''f'' mod 5 = 2 \<and> first_stop collision_example ''f'' 1 \<and>
   probe_index collision_example ''f'' 1 = 3 \<and>
   get_bucket_index collision_example ''f'' = Some (Inr 3)"
proof -
  have a: "0 < capacity_oa collision_example"
    and b: "length (buckets_oa collision_example) = nat (capacity_oa collision_example)"
    by (simp_all add: collision_example_def)
  have h: "example_hash ''f'' mod 5 = 2" by (simp add: example_hash_def)
  have p0: "probe_index collision_example ''f'' 0 = 2"
    and p1: "probe_index collision_example ''f'' 1 = 3"
    by (simp_all add: probe_index_def collision_example_def example_hash_def)
  have s0: "\<not> stops collision_example ''f'' 2"
    by (simp add: stops_def collision_example_def HashEntry_def)
  have s1: "stops collision_example ''f'' 3"
    by (simp add: stops_def collision_example_def)
  have fs: "first_stop collision_example ''f'' 1"
    unfolding first_stop_def p1 using s0 s1 p0 by auto
  from get_bucket_index_probes [OF a b, of "''f''" 1] fs p1 h a b show ?thesis by simp
qed

lemma mset_eq_of_map_of:
  assumes "distinct (map fst xs)" "distinct (map fst ys)" "map_of xs = map_of ys"
  shows "mset xs = mset ys"
proof -
  from assms have "set xs = set ys" by (simp add: map_of_inject_set)
  moreover from assms(1,2) have "distinct xs" "distinct ys" by (simp_all add: distinct_map)
  ultimately show ?thesis by (simp add: set_eq_iff_mset_eq_distinct)
qed

lemma reachable_oa:
  fixes hash :: "'k \<Rightarrow> int" and m0 :: "('k, 'v) hash_map_oa"
  assumes "0 \<le> capacity" "HashMap_oa capacity hash = Some m0" "exec_oa m0 operations = Some r"
  shows "\<exists>m. r = Inr m \<and> wf_oa m \<and> entries_oa m = model_run Map.empty operations"
proof -
  from HashMap_oa_wf [OF assms(1), of hash] obtain m1 :: "('k, 'v) hash_map_oa" where
    m1: "HashMap_oa capacity hash = Some m1" "wf_oa m1" "entries_oa m1 = Map.empty" by blast
  from m1(1) assms(2) have "m1 = m0" by simp
  with m1 have m0: "wf_oa m0" "entries_oa m0 = Map.empty" by simp_all
  from exec_oa_refines [OF m0(1) assms(3)] m0(2) show ?thesis by auto
qed

lemma reachable_sc:
  fixes hash :: "'k \<Rightarrow> int" and m0 :: "('k, 'v) hash_map_sc"
  assumes "0 \<le> capacity" "HashMap_sc capacity hash = Some m0"
  shows "\<exists>m. exec_sc m0 operations = Some (Inr m) \<and> wf_sc m \<and>
     entries_sc m = model_run Map.empty operations"
proof -
  from HashMap_sc_wf [OF assms(1), of hash] obtain m1 :: "('k, 'v) hash_map_sc" where
    m1: "HashMap_sc capacity hash = Some m1" "wf_sc m1" "entries_sc m1 = Map.empty" by blast
  from m1(1) assms(2) have "m1 = m0" by simp
  with m1 have m0: "wf_sc m0" "entries_sc m0 = Map.empty" by simp_all
  from exec_sc_refines [OF m0(1), of operations] m0(2) show ?thesis by auto
qed

text \<open>
  Claim C1. Take a map of either variant constructed with a non-negative requested capacity
  and any hash function, and run a sequence of operations in which \<open>put(k, v)\<close> is followed
  by no \<open>remove(k)\<close>, no \<open>clear\<close> and no other \<open>put(k, _)\<close>. Open addressing: if the
  sequence consists of puts and explicit resizes only, it runs to completion, and whenever
  the sequence runs to completion (without raising), \<open>get(k)\<close> then returns \<open>v\<close>.
  Chaining: the sequence always runs to completion and \<open>get(k)\<close> then returns \<open>v\<close>.
  Automatic resizes happen inside \<open>put_oa\<close>.
\<close>

theorem put_then_get:
  fixes hash :: "'k \<Rightarrow> int" and operations :: "('k, 'v) operation list"
  assumes "0 \<le> capacity"
    and "operations = before @ Put k v # after"
    and "\<forall>operation\<in>set after. \<not> overwrites k operation"
  shows "(\<exists>m0. HashMap_oa capacity hash = Some m0 \<and>
            ((\<forall>operation\<in>set operations. grows operation) \<longrightarrow>
               (\<exists>m. exec_oa m0 operations = Some (Inr m))) \<and>
            (\<forall>r. exec_oa m0 operations = Some r \<longrightarrow>
               (\<exists>m. r = Inr m \<and> get_oa m k = Some (Inr (Some v))))) \<and>
         (\<exists>m0. HashMap_sc capacity hash = Some m0 \<and>
            (\<exists>m. exec_sc m0 operations = Some (Inr m) \<and> get_sc m k = Inr (Some v)))"
proof -
  have mr: "model_run Map.empty operations k = Some v"
    unfolding assms(2) using assms(3) by (rule model_run_last_put)
  from HashMap_oa_wf [OF assms(1), of hash] obtain m0 :: "('k, 'v) hash_map_oa" where m0:
    "HashMap_oa capacity hash = Some m0" "wf_oa m0" "no_tombstones m0" by blast
  have a: "(\<forall>operation\<in>set operations. grows operation) \<longrightarrow>
      (\<exists>m. exec_oa m0 operations = Some (Inr m))"
    using exec_oa_grows_returns [OF m0(2,3)] by blast
  have b: "\<forall>r. exec_oa m0 operations = Some r \<longrightarrow>
      (\<exists>m. r = Inr m \<and> get_oa m k = Some (Inr (Some v)))"
  proof (intro allI impI)
    fix r assume "exec_oa m0 operations = Some r"
    from reachable_oa [OF assms(1) m0(1) this] obtain m where m: "r = Inr m" "wf_oa m"
      "entries_oa m = model_run Map.empty operations" by blast
    from m(2) have "core_ok m" by (simp add: wf_oa_def)
    from get_oa_present [OF this, of k v] m(3) mr m(1)
    show "\<exists>m. r = Inr m \<and> get_oa m k = Some (Inr (Some v))" by simp
  qed
  from HashMap_sc_wf [OF assms(1), of hash] obtain s0 :: "('k, 'v) hash_map_sc" where s0:
    "HashMap_sc capacity hash = Some s0" by blast
  from reachable_sc [OF assms(1) s0] obtain s where s: "exec_sc s0 operations = Some (Inr s)"
    "wf_sc s" "entries_sc s = model_run Map.empty operations" by blast
  have "get_sc s k = Inr (Some v)" using get_sc_spec [OF s(2), of k] s(3) mr by simp
  with s(1) s0 have c: "\<exists>m0. HashMap_sc capacity hash = Some m0 \<and>
            (\<exists>m. exec_sc m0 operations = Some (Inr m) \<and> get_sc m k = Inr (Some v))" by blast
  from m0(1) a b have "\<exists>m0. HashMap_oa capacity hash = Some m0 \<and>
            ((\<forall>operation\<in>set operations. grows operation) \<longrightarrow>
               (\<exists>m. exec_oa m0 operations = Some (Inr m))) \<and>
            (\<forall>r. exec_oa m0 operations = Some r \<longrightarrow>
               (\<exists>m. r = Inr m \<and> get_oa m k = Some (Inr (Some v))))" by blast
  from this c show ?thesis by (rule conjI)
qed

definition scenario_update :: "(string, int) operation list" where
  "scenario_update = [Put ''a'' 1, Put ''b'' 2, Put ''a'' 3]"

lemmas eval_oa =
  put_oa_unfold resize_table_oa_unfold reinsert_oa_Nil reinsert_oa_Cons put_entry_oa_def
  find_bucket_oa_def get_bucket_index_def get_bucket_index_loop.simps da_get_def da_set_def
  table_load_oa_def live_entry_def HashEntry_def clear_oa_def get_keys_and_values_oa_def
  step_oa_def remove_oa_def get_oa_def contains_key_oa_def keep_def example_hash_def
  next_prime_def next_prime_loop.simps is_prime_def is_prime_loop.simps HashMap_oa_def Let_def

lemmas eval_sc =
  put_sc_def find_chain_sc_def ll_contains_def ll_insert_def da_get_def clear_sc_def
  get_keys_and_values_sc_def resize_table_sc_def get_sc_def contains_key_sc_def remove_sc_def
  step_sc_def keep_def example_hash_def next_prime_def next_prime_loop.simps is_prime_def
  is_prime_loop.simps HashMap_sc_def Let_def

text \<open>
  The scenario of the specification: capacity 5, \<open>put(a, 1)\<close>, \<open>put(b, 2)\<close>,
  \<open>put(a, 3)\<close>; then \<open>get(a) = 3\<close>, the size is 2 and \<open>get(c)\<close> finds nothing.
\<close>

theorem put_then_get_witness:
  "(0::int) \<le> 5 \<and>
   scenario_update = [Put ''a'' 1, Put ''b'' 2] @ Put ''a'' 3 # [] \<and>
   (\<exists>m0 m. HashMap_oa 5 example_hash = Some m0 \<and>
      exec_oa m0 scenario_update = Some (Inr m) \<and> size_oa m = 2 \<and>
      get_oa m ''a'' = Some (Inr (Some 3)) \<and> get_oa m ''c'' = Some (Inr None)) \<and>
   (\<exists>m0 m. HashMap_sc 5 example_hash = Some m0 \<and>
      exec_sc m0 scenario_update = Some (Inr m) \<and> get_sc m ''a'' = Inr (Some 3))"
proof -
  have h1: "(0::int) \<le> 5" by simp
  have h2: "scenario_update = [Put ''a'' 1, Put ''b'' 2] @ Put ''a'' 3 # []"
    by (simp add: scenario_update_def)
  have h3: "\<forall>operation\<in>set ([] :: (string, int) operation list). \<not> overwrites ''a'' operation"
    by simp
  note w = put_then_get [OF h1 h2 h3, of example_hash]
  from w obtain m0 where m0: "HashMap_oa 5 example_hash = Some m0"
    "\<forall>r. exec_oa m0 scenario_update = Some r \<longrightarrow>
       (\<exists>m. r = Inr m \<and> get_oa m ''a'' = Some (Inr (Some 3)))" by blast
  have e0: "HashMap_oa 5 example_hash =
    Some (\<lparr>buckets_oa = [None, None, None, None, None], capacity_oa = 5,
      hash_function_oa = example_hash, size_oa = 0\<rparr> :: (string, int) hash_map_oa)"
    by (simp add: eval_oa eval_nat_numeral)
  have e1: "exec_oa \<lparr>buckets_oa = [None, None, None, None, None], capacity_oa = 5,
      hash_function_oa = example_hash, size_oa = 0\<rparr> scenario_update =
    Some (Inr \<lparr>buckets_oa = [None, None, Some (HashEntry ''a'' 3), Some (HashEntry ''b'' 2), None],
      capacity_oa = 5, hash_function_oa = example_hash, size_oa = 2\<rparr>)"
    by (simp add: scenario_update_def eval_oa)
  have e2: "get_oa \<lparr>buckets_oa = [None, None, Some (HashEntry ''a'' 3), Some (HashEntry ''b'' 2), None],
      capacity_oa = 5, hash_function_oa = example_hash, size_oa = 2\<rparr> ''c'' = Some (Inr None)"
    by (simp add: eval_oa)
  from m0 e0 e1 e2 have "\<exists>m0 m. HashMap_oa 5 example_hash = Some m0 \<and>
      exec_oa m0 scenario_update = Some (Inr m) \<and> size_oa m = 2 \<and>
      get_oa m ''a'' = Some (Inr (Some 3)) \<and> get_oa m ''c'' = Some (Inr None)"
    by auto
  moreover from w have "\<exists>m0 m. HashMap_sc 5 example_hash = Some m0 \<and>
      exec_sc m0 scenario_update = Some (Inr m) \<and> get_sc m ''a'' = Inr (Some 3)" by blast
  ultimately show ?thesis using h1 h2 by blast
qed

definition scenario_tombstone :: "(string, int) operation list" where
  "scenario_tombstone = [Put ''a'' 1, Put ''b'' 2, Put ''c'' 3, Remove ''b'']"

definition table_11 :: "(string, int) hash_map_oa" where
  "table_11 = \<lparr>buckets_oa = replicate 11 None, capacity_oa = 11,
     hash_function_oa = example_hash, size_oa = 0\<rparr>"

definition table_tombstone :: "(string, int) hash_map_oa" where
  "table_tombstone =
     \<lparr>buckets_oa = [Some (HashEntry ''c'' 3), None, None, None, None, None, None, None, None,
        Some (HashEntry ''a'' 1),
        Some \<lparr>entry_key = ''b'', entry_value = 2, is_tombstone = True\<rparr>],
      capacity_oa = 11, hash_function_oa = example_hash, size_oa = 2\<rparr>"

lemma HashMap_oa_11: "HashMap_oa 11 example_hash = Some table_11"
  by (simp add: table_11_def eval_oa eval_nat_numeral)

lemma exec_scenario_tombstone: "exec_oa table_11 scenario_tombstone = Some (Inr table_tombstone)"
  by (simp add: table_11_def table_tombstone_def scenario_tombstone_def eval_oa eval_nat_numeral)

text \<open>
  Claim C2. In every state reached from a freshly constructed map (non-negative requested
  capacity) by a sequence of operations, \<open>resize_table(n)\<close> returns for every \<open>n\<close>, and
  \<open>get_keys_and_values\<close> before and after it enumerate the same multiset of pairs; this
  holds for both variants. The automatic resize of \<open>put_oa\<close> is the call
  \<open>resize_table(2 * capacity)\<close>, an instance.
\<close>

theorem resize_keeps_entries:
  fixes hash :: "'k \<Rightarrow> int" and operations :: "('k, 'v) operation list"
  assumes "0 \<le> capacity"
  shows "(\<exists>m0. HashMap_oa capacity hash = Some m0 \<and>
            (\<forall>m. exec_oa m0 operations = Some (Inr m) \<longrightarrow>
               (\<exists>m' before after. resize_table_oa m n = Some (Inr m') \<and>
                  get_keys_and_values_oa m = Inr before \<and>
                  get_keys_and_values_oa m' = Inr after \<and> mset after = mset before))) \<and>
         (\<exists>m0 m m' before after. HashMap_sc capacity hash = Some m0 \<and>
            exec_sc m0 operations = Some (Inr m) \<and> resize_table_sc m n = Some (Inr m') \<and>
            get_keys_and_values_sc m = Inr before \<and>
            get_keys_and_values_sc m' = Inr after \<and> mset after = mset before)"
proof -
  from HashMap_oa_wf [OF assms, of hash] obtain m0 :: "('k, 'v) hash_map_oa" where m0:
    "HashMap_oa capacity hash = Some m0" by blast
  have "\<exists>m' before after. resize_table_oa m n = Some (Inr m') \<and>
      get_keys_and_values_oa m = Inr before \<and>
      get_keys_and_values_oa m' = Inr after \<and> mset after = mset before"
    if ex: "exec_oa m0 operations = Some (Inr m)" for m
  proof -
    from reachable_oa [OF assms m0 ex] have wf: "wf_oa m" by simp
    from resize_table_oa_spec [OF wf, of n] obtain m' where m':
      "resize_table_oa m n = Some (Inr m')" "wf_oa m'" "entries_oa m' = entries_oa m" by blast
    from wf m'(2) have co: "core_ok m" "core_ok m'" by (simp_all add: wf_oa_def)
    then have sh: "shape_ok m" "shape_ok m'" by (simp_all add: core_ok_def)
    have g: "get_keys_and_values_oa m = Inr (live_pairs (buckets_oa m))"
      "get_keys_and_values_oa m' = Inr (live_pairs (buckets_oa m'))"
      using sh by (simp_all add: get_keys_and_values_oa_eq shape_ok_def)
    have "mset (live_pairs (buckets_oa m')) = mset (live_pairs (buckets_oa m))"
      using m'(3) unique_keys_distinct [OF core_unique_keys [OF co(1)]]
        unique_keys_distinct [OF core_unique_keys [OF co(2)]]
      by (intro mset_eq_of_map_of) (simp_all add: entries_oa_def)
    with m'(1) g show ?thesis by blast
  qed
  with m0 have oa: "\<exists>m0. HashMap_oa capacity hash = Some m0 \<and>
            (\<forall>m. exec_oa m0 operations = Some (Inr m) \<longrightarrow>
               (\<exists>m' before after. resize_table_oa m n = Some (Inr m') \<and>
                  get_keys_and_values_oa m = Inr before \<and>
                  get_keys_and_values_oa m' = Inr after \<and> mset after = mset before))"
    by blast
  from HashMap_sc_wf [OF assms, of hash] obtain s0 :: "('k, 'v) hash_map_sc" where s0:
    "HashMap_sc capacity hash = Some s0" by blast
  from reachable_sc [OF assms s0] obtain s where s: "exec_sc s0 operations = Some (Inr s)"
    "wf_sc s" by blast
  from resize_table_sc_spec [OF s(2), of n] obtain s' where s':
    "resize_table_sc s n = Some (Inr s')" "wf_sc s'" "entries_sc s' = entries_sc s" by blast
  have g: "get_keys_and_values_sc s = Inr (concat (buckets_sc s))"
    "get_keys_and_values_sc s' = Inr (concat (buckets_sc s'))"
    using s(2) s'(2) by (simp_all add: get_keys_and_values_sc_eq wf_sc_def)
  have "mset (concat (buckets_sc s')) = mset (concat (buckets_sc s))"
    using s'(3) wf_sc_distinct [OF s(2)] wf_sc_distinct [OF s'(2)]
    by (intro mset_eq_of_map_of) (simp_all add: entries_sc_def)
  with s0 s(1) s'(1) g have "\<exists>m0 m m' before after. HashMap_sc capacity hash = Some m0 \<and>
            exec_sc m0 operations = Some (Inr m) \<and> resize_table_sc m n = Some (Inr m') \<and>
            get_keys_and_values_sc m = Inr before \<and>
            get_keys_and_values_sc m' = Inr after \<and> mset after = mset before" by blast
  with oa show ?thesis by (rule conjI)
qed

text \<open>
  Capacity 11, three puts and a remove: the table holds a tombstone, and resizing it to 3
  (where the reinsertion doubles again) keeps the two live pairs.
\<close>

theorem resize_keeps_entries_witness:
  "(0::int) \<le> 11 \<and> HashMap_oa 11 example_hash = Some table_11 \<and>
   exec_oa table_11 scenario_tombstone = Some (Inr table_tombstone) \<and>
   get_keys_and_values_oa table_tombstone = Inr [(''c'', 3), (''a'', 1)] \<and>
   (\<exists>m' after. resize_table_oa table_tombstone 3 = Some (Inr m') \<and>
      get_keys_and_values_oa m' = Inr after \<and> mset after = mset [(''c'', 3), (''a'', 1)]) \<and>
   (\<exists>m0 m m' before after. HashMap_sc 11 example_hash = Some m0 \<and>
      exec_sc m0 scenario_tombstone = Some (Inr m) \<and> resize_table_sc m 3 = Some (Inr m') \<and>
      get_keys_and_values_sc m = Inr before \<and>
      get_keys_and_values_sc m' = Inr after \<and> mset after = mset before)"
proof -
  have h: "(0::int) \<le> 11" by simp
  note w = resize_keeps_entries [OF h, of example_hash scenario_tombstone 3]
  have g: "get_keys_and_values_oa table_tombstone = Inr [(''c'', 3), (''a'', 1)]"
    by (simp add: table_tombstone_def eval_oa eval_nat_numeral)
  from w HashMap_oa_11 exec_scenario_tombstone g
  have "\<exists>m' after. resize_table_oa table_tombstone 3 = Some (Inr m') \<and>
      get_keys_and_values_oa m' = Inr after \<and> mset after = mset [(''c'', 3), (''a'', 1)]"
    by auto
  with w h HashMap_oa_11 exec_scenario_tombstone g show ?thesis by blast
qed

text \<open>
  Claim C5. In every state reached from a freshly constructed map (non-negative requested
  capacity) by a sequence of put, get, contains_key, remove, clear and resize_table,
  \<open>get_keys_and_values\<close> enumerates one pair per live slot (open addressing) or chain node
  (chaining), the keys of that enumeration are pairwise different, and the size field is
  its length. For open addressing even the keys of all occupied slots, tombstones included,
  are pairwise different.
\<close>

theorem keys_unique_and_size_counts:
  fixes hash :: "'k \<Rightarrow> int" and operations :: "('k, 'v) operation list"
  assumes "0 \<le> capacity"
  shows "(\<exists>m0. HashMap_oa capacity hash = Some m0 \<and>
            (\<forall>m. exec_oa m0 operations = Some (Inr m) \<longrightarrow>
               get_keys_and_values_oa m = Inr (live_pairs (buckets_oa m)) \<and>
               distinct (map fst (live_pairs (buckets_oa m))) \<and>
               unique_keys (buckets_oa m) \<and>
               size_oa m = int (length (live_pairs (buckets_oa m))))) \<and>
         (\<exists>m0 m. HashMap_sc capacity hash = Some m0 \<and>
            exec_sc m0 operations = Some (Inr m) \<and>
            get_keys_and_values_sc m = Inr (concat (buckets_sc m)) \<and>
            distinct (map fst (concat (buckets_sc m))) \<and>
            size_sc m = int (length (concat (buckets_sc m))))"
proof -
  from HashMap_oa_wf [OF assms, of hash] obtain m0 :: "('k, 'v) hash_map_oa" where m0:
    "HashMap_oa capacity hash = Some m0" by blast
  have "get_keys_and_values_oa m = Inr (live_pairs (buckets_oa m)) \<and>
      distinct (map fst (live_pairs (buckets_oa m))) \<and> unique_keys (buckets_oa m) \<and>
      size_oa m = int (length (live_pairs (buckets_oa m)))"
    if ex: "exec_oa m0 operations = Some (Inr m)" for m
  proof -
    from reachable_oa [OF assms m0 ex] have "wf_oa m" by simp
    then have co: "core_ok m" by (simp add: wf_oa_def)
    then have "shape_ok m" and sz: "size_oa m = int (length (live_pairs (buckets_oa m)))"
      by (simp_all add: core_ok_def)
    then have "get_keys_and_values_oa m = Inr (live_pairs (buckets_oa m))"
      by (simp add: get_keys_and_values_oa_eq shape_ok_def)
    with core_unique_keys [OF co] unique_keys_distinct [OF core_unique_keys [OF co]] sz
    show ?thesis by simp
  qed
  with m0 have oa: "\<exists>m0. HashMap_oa capacity hash = Some m0 \<and>
            (\<forall>m. exec_oa m0 operations = Some (Inr m) \<longrightarrow>
               get_keys_and_values_oa m = Inr (live_pairs (buckets_oa m)) \<and>
               distinct (map fst (live_pairs (buckets_oa m))) \<and>
               unique_keys (buckets_oa m) \<and>
               size_oa m = int (length (live_pairs (buckets_oa m))))"
    by blast
  from HashMap_sc_wf [OF assms, of hash] obtain s0 :: "('k, 'v) hash_map_sc" where s0:
    "HashMap_sc capacity hash = Some s0" by blast
  from reachable_sc [OF assms s0] obtain s where s: "exec_sc s0 operations = Some (Inr s)"
    "wf_sc s" by blast
  have "get_keys_and_values_sc s = Inr (concat (buckets_sc s))"
    "size_sc s = int (length (concat (buckets_sc s)))"
    using s(2) by (simp_all add: get_keys_and_values_sc_eq wf_sc_def)
  with s0 s(1) wf_sc_distinct [OF s(2)]
  have "\<exists>m0 m. HashMap_sc capacity hash = Some m0 \<and>
            exec_sc m0 operations = Some (Inr m) \<and>
            get_keys_and_values_sc m = Inr (concat (buckets_sc m)) \<and>
            distinct (map fst (concat (buckets_sc m))) \<and>
            size_sc m = int (length (concat (buckets_sc m)))" by blast
  with oa show ?thesis by (rule conjI)
qed

text \<open>The tombstone scenario again: two live pairs, size 2.\<close>

theorem keys_unique_and_size_counts_witness:
  "(0::int) \<le> 11 \<and> HashMap_oa 11 example_hash = Some table_11 \<and>
   exec_oa table_11 scenario_tombstone = Some (Inr table_tombstone) \<and>
   live_pairs (buckets_oa table_tombstone) = [(''c'', 3), (''a'', 1)] \<and>
   get_keys_and_values_oa table_tombstone = Inr (live_pairs (buckets_oa table_tombstone)) \<and>
   distinct (map fst (live_pairs (buckets_oa table_tombstone))) \<and>
   unique_keys (buckets_oa table_tombstone) \<and>
   size_oa table_tombstone = int (length (live_pairs (buckets_oa table_tombstone))) \<and>
   (\<exists>m0 m. HashMap_sc 11 example_hash = Some m0 \<and>
      exec_sc m0 scenario_tombstone = Some (Inr m) \<and>
      get_keys_and_values_sc m = Inr (concat (buckets_sc m)) \<and>
      distinct (map fst (concat (buckets_sc m))) \<and>
      size_sc m = int (length (concat (buckets_sc m))))"
proof -
  have h: "(0::int) \<le> 11" by simp
  note w = keys_unique_and_size_counts [OF h, of example_hash scenario_tombstone]
  have l: "live_pairs (buckets_oa table_tombstone) = [(''c'', 3), (''a'', 1)]"
    by (simp add: table_tombstone_def live_pair_def live_entry_def HashEntry_def)
  from w HashMap_oa_11 exec_scenario_tombstone
  have "get_keys_and_values_oa table_tombstone = Inr (live_pairs (buckets_oa table_tombstone)) \<and>
   distinct (map fst (live_pairs (buckets_oa table_tombstone))) \<and>
   unique_keys (buckets_oa table_tombstone) \<and>
   size_oa table_tombstone = int (length (live_pairs (buckets_oa table_tombstone)))"
    by auto
  with w h HashMap_oa_11 exec_scenario_tombstone l show ?thesis by blast
qed

text \<open>
  Claim C4, as amended. In every state reached from a freshly constructed open-addressing
  map (non-negative requested capacity), a \<open>put\<close> that returns never raises, and right
  after it: if the key was already present (an update), the size is unchanged and
  \<open>table_load() < 0.5\<close>; if the key is new, the size has grown by one and
  \<open>table_load() < 0.5 + 1 / capacity\<close>, that is \<open>(size - 1) / capacity < 0.5\<close>: the load is
  checked before the new entry is written, not after.
\<close>

theorem put_load_bound:
  fixes hash :: "'k \<Rightarrow> int" and operations :: "('k, 'v) operation list"
  assumes "0 \<le> capacity"
    and "HashMap_oa capacity hash = Some m0"
    and "exec_oa m0 operations = Some (Inr m)"
    and "put_oa m k v = Some r"
  shows "\<exists>m' load. r = Inr m' \<and> table_load_oa m' = Inr load \<and>
     (if entries_oa m k = None
      then size_oa m' = size_oa m + 1 \<and> load < 1 / 2 + 1 / real_of_int (capacity_oa m')
      else size_oa m' = size_oa m \<and> load < 1 / 2)"
proof -
  from reachable_oa [OF assms(1-3)] have wf: "wf_oa m" by simp
  from put_oa_spec [OF wf assms(4)] obtain m' where m': "r = Inr m'" "wf_oa m'"
    "size_oa m' = (if entries_oa m k = None then size_oa m + 1 else size_oa m)"
    "2 * (size_oa m' - 1) < capacity_oa m'"
    "entries_oa m k \<noteq> None \<longrightarrow> 2 * size_oa m' < capacity_oa m'" by blast
  from m'(2) have c: "0 < capacity_oa m'" by (simp add: wf_oa_def core_ok_def shape_ok_def)
  let ?load = "real_of_int (size_oa m') / real_of_int (capacity_oa m')"
  have tl: "table_load_oa m' = Inr ?load" using c by (simp add: table_load_oa_def)
  have b1: "?load < 1 / 2 + 1 / real_of_int (capacity_oa m')"
  proof -
    from m'(4) have "real_of_int (2 * (size_oa m' - 1)) < real_of_int (capacity_oa m')"
      by (simp only: of_int_less_iff)
    with c show ?thesis by (simp add: field_simps)
  qed
  have b2: "?load < 1 / 2" if "2 * size_oa m' < capacity_oa m'"
  proof -
    from that have "real_of_int (2 * size_oa m') < real_of_int (capacity_oa m')"
      by (simp only: of_int_less_iff)
    with c show ?thesis by (simp add: field_simps)
  qed
  have "if entries_oa m k = None
      then size_oa m' = size_oa m + 1 \<and> ?load < 1 / 2 + 1 / real_of_int (capacity_oa m')
      else size_oa m' = size_oa m \<and> ?load < 1 / 2"
    using m'(3,5) b1 b2 by (cases "entries_oa m k = None") simp_all
  with m'(1) tl show ?thesis by blast
qed

definition table_3 :: "(string, int) hash_map_oa" where
  "table_3 = \<lparr>buckets_oa = [None, None, None], capacity_oa = 3,
     hash_function_oa = example_hash, size_oa = 0\<rparr>"

definition table_3_a :: "(string, int) hash_map_oa" where
  "table_3_a = \<lparr>buckets_oa = [None, Some (HashEntry ''a'' 1), None], capacity_oa = 3,
     hash_function_oa = example_hash, size_oa = 1\<rparr>"

definition table_3_ab :: "(string, int) hash_map_oa" where
  "table_3_ab =
     \<lparr>buckets_oa = [None, Some (HashEntry ''a'' 1), Some (HashEntry ''b'' 2)], capacity_oa = 3,
      hash_function_oa = example_hash, size_oa = 2\<rparr>"

lemma HashMap_oa_3: "HashMap_oa 3 example_hash = Some table_3"
  by (simp add: table_3_def eval_oa eval_nat_numeral)

lemma exec_table_3_a: "exec_oa table_3 [Put ''a'' 1] = Some (Inr table_3_a)"
  by (simp add: table_3_def table_3_a_def eval_oa)

lemma put_table_3_ab: "put_oa table_3_a ''b'' 2 = Some (Inr table_3_ab)"
  by (simp add: table_3_a_def table_3_ab_def eval_oa)

lemma entries_table_3_a: "entries_oa table_3_a ''b'' = None"
  by (simp add: entries_oa_def table_3_a_def live_pair_def live_entry_def HashEntry_def)

text \<open>Capacity 3: after \<open>put(a, 1)\<close>, \<open>put(b, 2)\<close> the load is 2/3, below 1/2 + 1/3.\<close>

theorem put_load_bound_witness:
  "(0::int) \<le> 3 \<and> HashMap_oa 3 example_hash = Some table_3 \<and>
   exec_oa table_3 [Put ''a'' 1] = Some (Inr table_3_a) \<and>
   put_oa table_3_a ''b'' 2 = Some (Inr table_3_ab) \<and>
   entries_oa table_3_a ''b'' = None \<and>
   table_load_oa table_3_ab = Inr (2 / 3) \<and>
   size_oa table_3_ab = size_oa table_3_a + 1 \<and>
   (2 / 3 :: real) < 1 / 2 + 1 / real_of_int (capacity_oa table_3_ab)"
proof -
  have h: "(0::int) \<le> 3" by simp
  have tl: "table_load_oa table_3_ab = Inr (2 / 3)"
    by (simp add: table_3_ab_def table_load_oa_def)
  from put_load_bound [OF h HashMap_oa_3 exec_table_3_a put_table_3_ab] entries_table_3_a tl
  have "size_oa table_3_ab = size_oa table_3_a + 1 \<and>
   (2 / 3 :: real) < 1 / 2 + 1 / real_of_int (capacity_oa table_3_ab)" by auto
  with h HashMap_oa_3 exec_table_3_a put_table_3_ab entries_table_3_a tl show ?thesis by blast
qed

text \<open>
  Claim C4 as stated fails: in \<open>HashMap(3)\<close> after \<open>put(a, 1)\<close>, the call
  \<open>put(b, 2)\<close> inserts a key that was not present, and the load afterwards is 2/3.
\<close>

theorem put_load_counterexample:
  "HashMap_oa 3 example_hash = Some table_3 \<and>
   exec_oa table_3 [Put ''a'' 1] = Some (Inr table_3_a) \<and>
   entries_oa table_3_a ''b'' = None \<and>
   contains_key_oa table_3_a ''b'' = Some (Inr False) \<and>
   put_oa table_3_a ''b'' 2 = Some (Inr table_3_ab) \<and>
   table_load_oa table_3_ab = Inr (2 / 3) \<and> \<not> (2 / 3 :: real) < 1 / 2"
proof -
  have tl: "table_load_oa table_3_ab = Inr (2 / 3)"
    by (simp add: table_3_ab_def table_load_oa_def)
  have ck: "contains_key_oa table_3_a ''b'' = Some (Inr False)"
    by (simp add: table_3_a_def eval_oa)
  have "\<not> (2 / 3 :: real) < 1 / 2" by simp
  with HashMap_oa_3 exec_table_3_a put_table_3_ab entries_table_3_a tl ck show ?thesis by blast
qed

text \<open>
  Claim C8. \<open>resize_table(n)\<close> returns the map unchanged, raising nothing, when \<open>n\<close> is
  below the size field (open addressing, in any state) or below 1 (chaining, in any state).
  Otherwise, in every state reached from a freshly constructed map (non-negative requested
  capacity), the requested capacity is normalised to \<open>p = n\<close> if \<open>_is_prime(n)\<close> and to
  \<open>_next_prime(n)\<close> if not, \<open>p\<close> is a prime at or above \<open>n\<close>, and the table is rebuilt by
  reinserting the live pairs into an empty table of capacity \<open>p\<close>: the chaining map ends
  with capacity \<open>p\<close>, the open-addressing map with a capacity of at least \<open>p\<close>.
\<close>

theorem resize_table_guard:
  fixes hash :: "'k \<Rightarrow> int" and operations :: "('k, 'v) operation list"
  assumes "0 \<le> capacity"
  shows "(\<forall>m :: ('k, 'v) hash_map_oa. n < size_oa m \<longrightarrow> resize_table_oa m n = Some (Inr m)) \<and>
     (\<forall>s :: ('k, 'v) hash_map_sc. n < 1 \<longrightarrow> resize_table_sc s n = Some (Inr s)) \<and>
     (\<exists>m0. HashMap_oa capacity hash = Some m0 \<and>
        (\<forall>m. exec_oa m0 operations = Some (Inr m) \<and> size_oa m \<le> n \<longrightarrow>
           (\<exists>p m'. (if \<not> is_prime n then next_prime n else Some n) = Some p \<and>
              prime_int p \<and> n \<le> p \<and>
              resize_table_oa m n =
                reinsert_oa (clear_oa (m\<lparr>capacity_oa := p\<rparr>)) (live_pairs (buckets_oa m)) \<and>
              resize_table_oa m n = Some (Inr m') \<and> p \<le> capacity_oa m'))) \<and>
     (\<exists>s0 s. HashMap_sc capacity hash = Some s0 \<and> exec_sc s0 operations = Some (Inr s) \<and>
        (1 \<le> n \<longrightarrow>
           (\<exists>s'. resize_table_sc s n = Some (Inr s') \<and>
              (if \<not> is_prime n then next_prime n else Some n) = Some (capacity_sc s') \<and>
              prime_int (capacity_sc s'))))"
proof -
  have 1: "\<forall>m :: ('k, 'v) hash_map_oa. n < size_oa m \<longrightarrow> resize_table_oa m n = Some (Inr m)"
    by (subst resize_table_oa_unfold) simp
  have 2: "\<forall>s :: ('k, 'v) hash_map_sc. n < 1 \<longrightarrow> resize_table_sc s n = Some (Inr s)"
    by (simp add: resize_table_sc_def)
  from HashMap_oa_wf [OF assms, of hash] obtain m0 :: "('k, 'v) hash_map_oa" where m0:
    "HashMap_oa capacity hash = Some m0" by blast
  have "\<exists>p m'. (if \<not> is_prime n then next_prime n else Some n) = Some p \<and>
      prime_int p \<and> n \<le> p \<and>
      resize_table_oa m n =
        reinsert_oa (clear_oa (m\<lparr>capacity_oa := p\<rparr>)) (live_pairs (buckets_oa m)) \<and>
      resize_table_oa m n = Some (Inr m') \<and> p \<le> capacity_oa m'"
    if ex: "exec_oa m0 operations = Some (Inr m)" and le: "size_oa m \<le> n" for m
  proof -
    from reachable_oa [OF assms m0 ex] have wf: "wf_oa m" by simp
    then have co: "core_ok m" by (simp add: wf_oa_def)
    from resize_table_oa_rebuild [OF co le] obtain p where p: "prime_int p" "n \<le> p"
      "(if \<not> is_prime n then next_prime n else Some n) = Some p"
      "resize_table_oa m n =
         reinsert_oa (clear_oa (m\<lparr>capacity_oa := p\<rparr>)) (live_pairs (buckets_oa m))" by blast
    from resize_table_oa_spec [OF wf, of n] le obtain m' q where m':
      "resize_table_oa m n = Some (Inr m')"
      "(if \<not> is_prime n then next_prime n else Some n) = Some q" "q \<le> capacity_oa m'"
      by blast
    from p(3) m'(2) have "q = p" by simp
    with p m' show ?thesis by blast
  qed
  with m0 have 3: "\<exists>m0. HashMap_oa capacity hash = Some m0 \<and>
        (\<forall>m. exec_oa m0 operations = Some (Inr m) \<and> size_oa m \<le> n \<longrightarrow>
           (\<exists>p m'. (if \<not> is_prime n then next_prime n else Some n) = Some p \<and>
              prime_int p \<and> n \<le> p \<and>
              resize_table_oa m n =
                reinsert_oa (clear_oa (m\<lparr>capacity_oa := p\<rparr>)) (live_pairs (buckets_oa m)) \<and>
              resize_table_oa m n = Some (Inr m') \<and> p \<le> capacity_oa m'))"
    by blast
  from HashMap_sc_wf [OF assms, of hash] obtain s0 :: "('k, 'v) hash_map_sc" where s0:
    "HashMap_sc capacity hash = Some s0" by blast
  from reachable_sc [OF assms s0] obtain s where s: "exec_sc s0 operations = Some (Inr s)"
    "wf_sc s" by blast
  from resize_table_sc_spec [OF s(2), of n]
  have "1 \<le> n \<longrightarrow>
           (\<exists>s'. resize_table_sc s n = Some (Inr s') \<and>
              (if \<not> is_prime n then next_prime n else Some n) = Some (capacity_sc s') \<and>
              prime_int (capacity_sc s'))" by blast
  with s0 s(1) have 4: "\<exists>s0 s. HashMap_sc capacity hash = Some s0 \<and>
        exec_sc s0 operations = Some (Inr s) \<and>
        (1 \<le> n \<longrightarrow>
           (\<exists>s'. resize_table_sc s n = Some (Inr s') \<and>
              (if \<not> is_prime n then next_prime n else Some n) = Some (capacity_sc s') \<and>
              prime_int (capacity_sc s')))" by blast
  from 1 2 3 4 show ?thesis by (intro conjI)
qed

definition chain_table :: "(string, int) hash_map_sc" where
  "chain_table = \<lparr>buckets_sc = [[(''x'', 10)], [], [], [], []], capacity_sc = 5,
     hash_function_sc = example_hash, size_sc = 1\<rparr>"

text \<open>
  Requests 1 and 0 are refused (open addressing with size 2, chaining); the request 4 is
  normalised to 5 in both variants.
\<close>

theorem resize_table_guard_witness:
  "(0::int) \<le> 11 \<and> HashMap_oa 11 example_hash = Some table_11 \<and>
   exec_oa table_11 scenario_tombstone = Some (Inr table_tombstone) \<and>
   (1::int) < size_oa table_tombstone \<and>
   resize_table_oa table_tombstone 1 = Some (Inr table_tombstone) \<and>
   (0::int) < 1 \<and> resize_table_sc chain_table 0 = Some (Inr chain_table) \<and>
   size_oa table_tombstone \<le> 4 \<and>
   (\<exists>m'. (if \<not> is_prime 4 then next_prime 4 else Some 4) = Some 5 \<and> prime_int 5 \<and>
      resize_table_oa table_tombstone 4 = Some (Inr m') \<and> 5 \<le> capacity_oa m') \<and>
   (\<exists>s0 s s'. HashMap_sc 11 example_hash = Some s0 \<and>
      exec_sc s0 scenario_tombstone = Some (Inr s) \<and> resize_table_sc s 4 = Some (Inr s') \<and>
      capacity_sc s' = 5 \<and> prime_int (capacity_sc s'))"
proof -
  have h: "(0::int) \<le> 11" by simp
  note w1 = resize_table_guard [OF h, of 1 example_hash scenario_tombstone]
  note w0 = resize_table_guard [OF h, of 0 example_hash scenario_tombstone]
  note w4 = resize_table_guard [OF h, of 4 example_hash scenario_tombstone]
  have sz: "size_oa table_tombstone = 2" by (simp add: table_tombstone_def)
  have np: "(if \<not> is_prime 4 then next_prime 4 else Some 4) = Some 5"
    by (simp add: next_prime_def next_prime_loop.simps is_prime_def is_prime_loop.simps)
  from w1 sz have a: "resize_table_oa table_tombstone 1 = Some (Inr table_tombstone)" by simp
  from w0 have b: "resize_table_sc chain_table 0 = Some (Inr chain_table)" by simp
  from w4 obtain m0 where m0: "HashMap_oa 11 example_hash = Some m0"
    "\<forall>m. exec_oa m0 scenario_tombstone = Some (Inr m) \<and> size_oa m \<le> 4 \<longrightarrow>
       (\<exists>p m'. (if \<not> is_prime 4 then next_prime 4 else Some 4) = Some p \<and>
          prime_int p \<and> 4 \<le> p \<and>
          resize_table_oa m 4 =
            reinsert_oa (clear_oa (m\<lparr>capacity_oa := p\<rparr>)) (live_pairs (buckets_oa m)) \<and>
          resize_table_oa m 4 = Some (Inr m') \<and> p \<le> capacity_oa m')" by blast
  from m0(1) HashMap_oa_11 have "m0 = table_11" by simp
  with m0(2) exec_scenario_tombstone sz obtain p m' where pm:
    "(if \<not> is_prime 4 then next_prime 4 else Some 4) = Some p" "prime_int p"
    "resize_table_oa table_tombstone 4 = Some (Inr m')" "p \<le> capacity_oa m'" by fastforce
  from pm(1) np have "p = 5" by simp
  with pm np
  have c: "\<exists>m'. (if \<not> is_prime 4 then next_prime 4 else Some 4) = Some 5 \<and> prime_int 5 \<and>
      resize_table_oa table_tombstone 4 = Some (Inr m') \<and> 5 \<le> capacity_oa m'"
    by blast
  from w4 np have d: "\<exists>s0 s s'. HashMap_sc 11 example_hash = Some s0 \<and>
      exec_sc s0 scenario_tombstone = Some (Inr s) \<and> resize_table_sc s 4 = Some (Inr s') \<and>
      capacity_sc s' = 5 \<and> prime_int (capacity_sc s')"
    by auto
  from h HashMap_oa_11 exec_scenario_tombstone sz a b c d show ?thesis by simp
qed

definition table_abc :: "(string, int) hash_map_oa" where
  "table_abc =
     \<lparr>buckets_oa = [Some (HashEntry ''c'' 3), None, None, None, None, None, None, None, None,
        Some (HashEntry ''a'' 1), Some (HashEntry ''b'' 2)],
      capacity_oa = 11, hash_function_oa = example_hash, size_oa = 3\<rparr>"

definition table_ca_3 :: "(string, int) hash_map_oa" where
  "table_ca_3 =
     \<lparr>buckets_oa = [Some (HashEntry ''c'' 3), Some (HashEntry ''a'' 1), None],
      capacity_oa = 3, hash_function_oa = example_hash, size_oa = 2\<rparr>"

definition table_abc_7 :: "(string, int) hash_map_oa" where
  "table_abc_7 =
     \<lparr>buckets_oa = [Some (HashEntry ''b'' 2), Some (HashEntry ''c'' 3), None, None, None, None,
        Some (HashEntry ''a'' 1)],
      capacity_oa = 7, hash_function_oa = example_hash, size_oa = 3\<rparr>"

text \<open>
  Claim C9. An accepted request for which the final capacity exceeds the normalised one:
  a map of capacity 11 holding \<open>a\<close>, \<open>b\<close>, \<open>c\<close> is resized to 3, its size. 3 is prime,
  so the table is cleared at capacity 3; after \<open>c\<close> and \<open>a\<close> are reinserted the load is 2/3,
  so the \<open>put\<close> that reinserts \<open>b\<close> first resizes to \<open>2 * 3\<close>, normalised to 7, and the map
  ends with capacity 7.
\<close>

theorem resize_nested_doubling:
  "HashMap_oa 11 example_hash = Some table_11 \<and>
   exec_oa table_11 [Put ''a'' 1, Put ''b'' 2, Put ''c'' 3] = Some (Inr table_abc) \<and>
   size_oa table_abc = 3 \<and>
   (if \<not> is_prime 3 then next_prime 3 else Some 3) = Some 3 \<and>
   get_keys_and_values_oa table_abc = Inr [(''c'', 3), (''a'', 1), (''b'', 2)] \<and>
   reinsert_oa (clear_oa (table_abc\<lparr>capacity_oa := 3\<rparr>)) [(''c'', 3), (''a'', 1)] =
     Some (Inr table_ca_3) \<and>
   table_load_oa table_ca_3 = Inr (2 / 3) \<and>
   resize_table_oa table_ca_3 (capacity_oa table_ca_3 * 2) =
     Some (Inr \<lparr>buckets_oa = [None, Some (HashEntry ''c'' 3), None, None, None, None,
              Some (HashEntry ''a'' 1)],
            capacity_oa = 7, hash_function_oa = example_hash, size_oa = 2\<rparr>) \<and>
   put_oa table_ca_3 ''b'' 2 = Some (Inr table_abc_7) \<and>
   resize_table_oa table_abc 3 = Some (Inr table_abc_7) \<and>
   capacity_oa table_abc_7 = 7 \<and> (3::int) < capacity_oa table_abc_7"
proof -
  have 1: "exec_oa table_11 [Put ''a'' 1, Put ''b'' 2, Put ''c'' 3] = Some (Inr table_abc)"
    by (simp add: table_11_def table_abc_def eval_oa eval_nat_numeral)
  have 2: "size_oa table_abc = 3" by (simp add: table_abc_def)
  have 3: "(if \<not> is_prime 3 then next_prime 3 else Some 3) = Some 3"
    by (simp add: is_prime_def)
  have 4: "get_keys_and_values_oa table_abc = Inr [(''c'', 3), (''a'', 1), (''b'', 2)]"
    by (simp add: table_abc_def eval_oa eval_nat_numeral)
  have 5: "reinsert_oa (clear_oa (table_abc\<lparr>capacity_oa := 3\<rparr>)) [(''c'', 3), (''a'', 1)] =
     Some (Inr table_ca_3)"
    by (simp add: table_abc_def table_ca_3_def eval_oa eval_nat_numeral)
  have 6: "table_load_oa table_ca_3 = Inr (2 / 3)"
    by (simp add: table_ca_3_def table_load_oa_def)
  have 7: "resize_table_oa table_ca_3 (capacity_oa table_ca_3 * 2) =
     Some (Inr \<lparr>buckets_oa = [None, Some (HashEntry ''c'' 3), None, None, None, None,
              Some (HashEntry ''a'' 1)],
            capacity_oa = 7, hash_function_oa = example_hash, size_oa = 2\<rparr>)"
    by (simp add: table_ca_3_def eval_oa eval_nat_numeral)
  have 8: "put_oa table_ca_3 ''b'' 2 = Some (Inr table_abc_7)"
    by (simp add: table_ca_3_def table_abc_7_def eval_oa eval_nat_numeral)
  have 9: "resize_table_oa table_abc 3 = Some (Inr table_abc_7)"
    by (simp add: table_abc_def table_abc_7_def eval_oa eval_nat_numeral)
  have 10: "capacity_oa table_abc_7 = 7" by (simp add: table_abc_7_def)
  from HashMap_oa_11 1 2 3 4 5 6 7 8 9 10 show ?thesis by simp
qed

subsection \<open>A probe that never ends\<close>

lemma get_bucket_index_diverges:
  assumes "shape_ok m" "\<forall>n. \<not> stops m k (probe_index m k n)"
  shows "get_bucket_index m k = None"
proof (rule ccontr)
  assume "get_bucket_index m k \<noteq> None"
  then obtain r where "get_bucket_index m k = Some r" by auto
  from get_bucket_index_result [OF assms(1) this] assms(2) show False
    by (auto simp: first_stop_def)
qed

lemma square_mod_3: "(1 + int n ^ 2) mod 3 = 1 \<or> (1 + int n ^ 2) mod 3 = 2"
proof -
  have "int n mod 3 = 0 \<or> int n mod 3 = 1 \<or> int n mod 3 = 2" by presburger
  moreover have "(1 + int n ^ 2) mod 3 = (1 + (int n mod 3) ^ 2) mod 3"
    by (metis mod_add_right_eq power_mod)
  ultimately show ?thesis by auto
qed

definition scenario_saturated :: "(string, int) operation list" where
  "scenario_saturated = [Put ''a'' 1, Remove ''a'', Put ''b'' 2, Remove ''b'']"

definition table_saturated :: "(string, int) hash_map_oa" where
  "table_saturated =
     \<lparr>buckets_oa = [None,
        Some \<lparr>entry_key = ''a'', entry_value = 1, is_tombstone = True\<rparr>,
        Some \<lparr>entry_key = ''b'', entry_value = 2, is_tombstone = True\<rparr>],
      capacity_oa = 3, hash_function_oa = example_hash, size_oa = 0\<rparr>"

text \<open>
  Claim C7 fails on the code for open addressing. After \<open>put(a)\<close>, \<open>remove(a)\<close>,
  \<open>put(b)\<close>, \<open>remove(b)\<close> on \<open>HashMap(3)\<close> the map is empty (size 0, no live pair) but
  slots 1 and 2 hold tombstones; the key \<open>d\<close>, absent, has initial index 1 and its probes
  \<open>(1 + j\<^sup>2) mod 3\<close> only ever visit slots 1 and 2. So \<open>remove(d)\<close> never returns, and
  neither do \<open>get(d)\<close> and \<open>put(d, 4)\<close>.
\<close>

theorem remove_absent_never_returns:
  "HashMap_oa 3 example_hash = Some table_3 \<and>
   exec_oa table_3 scenario_saturated = Some (Inr table_saturated) \<and>
   get_keys_and_values_oa table_saturated = Inr [] \<and>
   entries_oa table_saturated ''d'' = None \<and>
   remove_oa table_saturated ''d'' = None \<and>
   get_oa table_saturated ''d'' = None \<and>
   put_oa table_saturated ''d'' 4 = None"
proof -
  have 1: "exec_oa table_3 scenario_saturated = Some (Inr table_saturated)"
    by (simp add: table_3_def table_saturated_def scenario_saturated_def eval_oa)
  have 2: "get_keys_and_values_oa table_saturated = Inr []"
    by (simp add: table_saturated_def eval_oa eval_nat_numeral)
  have 3: "entries_oa table_saturated ''d'' = None"
    by (simp add: entries_oa_def table_saturated_def live_pair_def live_entry_def)
  have sh: "shape_ok table_saturated" by (simp add: shape_ok_def table_saturated_def)
  have pi: "probe_index table_saturated ''d'' n = (1 + int n ^ 2) mod 3" for n
    by (simp add: probe_index_def table_saturated_def example_hash_def)
  have ns: "\<forall>n. \<not> stops table_saturated ''d'' (probe_index table_saturated ''d'' n)"
  proof
    fix n
    from square_mod_3 [of n] show "\<not> stops table_saturated ''d'' (probe_index table_saturated ''d'' n)"
      unfolding pi by (auto simp: stops_def table_saturated_def)
  qed
  have gb: "get_bucket_index table_saturated ''d'' = None"
    using sh ns by (rule get_bucket_index_diverges)
  then have fb: "find_bucket_oa table_saturated ''d'' = None" by (simp add: find_bucket_oa_def)
  then have 4: "remove_oa table_saturated ''d'' = None" by (simp add: remove_oa_def)
  from fb have 5: "get_oa table_saturated ''d'' = None" by (simp add: get_oa_def)
  from fb have "put_entry_oa table_saturated ''d'' 4 = None" by (simp add: put_entry_oa_def)
  then have 6: "put_oa table_saturated ''d'' 4 = None"
    by (subst put_oa_unfold) (simp add: table_load_oa_def table_saturated_def)
  from HashMap_oa_3 1 2 3 4 5 6 show ?thesis by simp
qed

text \<open>
  What \<open>remove\<close> does do, in every state reached from a freshly constructed map
  (non-negative requested capacity). Open addressing: on a present key it returns, after
  which \<open>contains_key\<close> is false and the size is one less; on an absent key it leaves the
  map unchanged whenever it returns. Chaining: it always returns, \<open>contains_key\<close> is false
  afterwards, and the map is unchanged for an absent key and one smaller for a present one.
\<close>

theorem remove_returning:
  fixes hash :: "'k \<Rightarrow> int" and operations :: "('k, 'v) operation list"
  assumes "0 \<le> capacity"
  shows "(\<exists>m0. HashMap_oa capacity hash = Some m0 \<and>
            (\<forall>m. exec_oa m0 operations = Some (Inr m) \<longrightarrow>
               (if entries_oa m k = None
                then \<forall>r. remove_oa m k = Some r \<longrightarrow> r = Inr m
                else \<exists>m'. remove_oa m k = Some (Inr m') \<and>
                       contains_key_oa m' k = Some (Inr False) \<and>
                       size_oa m' = size_oa m - 1))) \<and>
         (\<exists>s0 s s'. HashMap_sc capacity hash = Some s0 \<and>
            exec_sc s0 operations = Some (Inr s) \<and> remove_sc s k = Inr s' \<and>
            contains_key_sc s' k = Inr False \<and>
            (if entries_sc s k = None then s' = s else size_sc s' = size_sc s - 1))"
proof -
  from HashMap_oa_wf [OF assms, of hash] obtain m0 :: "('k, 'v) hash_map_oa" where m0:
    "HashMap_oa capacity hash = Some m0" by blast
  have "if entries_oa m k = None
        then \<forall>r. remove_oa m k = Some r \<longrightarrow> r = Inr m
        else \<exists>m'. remove_oa m k = Some (Inr m') \<and>
               contains_key_oa m' k = Some (Inr False) \<and> size_oa m' = size_oa m - 1"
    if ex: "exec_oa m0 operations = Some (Inr m)" for m
  proof (cases "entries_oa m k = None")
    case True
    from reachable_oa [OF assms m0 ex] have "wf_oa m" by simp
    then have co: "core_ok m" by (simp add: wf_oa_def)
    have "r = Inr m" if "remove_oa m k = Some r" for r
      using remove_oa_spec [OF co that] True by auto
    with True show ?thesis by simp
  next
    case False
    from reachable_oa [OF assms m0 ex] have "wf_oa m" by simp
    then have co: "core_ok m" by (simp add: wf_oa_def)
    from False obtain v where "entries_oa m k = Some v" by auto
    from remove_oa_present [OF co this] obtain r where r: "remove_oa m k = Some r" ..
    from remove_oa_spec [OF co r] False r
    have "\<exists>m'. remove_oa m k = Some (Inr m') \<and>
               contains_key_oa m' k = Some (Inr False) \<and> size_oa m' = size_oa m - 1"
      by auto
    with False show ?thesis by (simp del: not_None_eq)
  qed
  with m0 have oa: "\<exists>m0. HashMap_oa capacity hash = Some m0 \<and>
            (\<forall>m. exec_oa m0 operations = Some (Inr m) \<longrightarrow>
               (if entries_oa m k = None
                then \<forall>r. remove_oa m k = Some r \<longrightarrow> r = Inr m
                else \<exists>m'. remove_oa m k = Some (Inr m') \<and>
                       contains_key_oa m' k = Some (Inr False) \<and>
                       size_oa m' = size_oa m - 1))"
    by blast
  from HashMap_sc_wf [OF assms, of hash] obtain s0 :: "('k, 'v) hash_map_sc" where s0:
    "HashMap_sc capacity hash = Some s0" by blast
  from reachable_sc [OF assms s0] obtain s where s: "exec_sc s0 operations = Some (Inr s)"
    "wf_sc s" by blast
  from remove_sc_spec [OF s(2), of k] obtain s' where all: "remove_sc s k = Inr s' \<and>
     wf_sc s' \<and> entries_sc s' = (entries_sc s)(k := None) \<and>
     capacity_sc s' = capacity_sc s \<and> hash_function_sc s' = hash_function_sc s \<and>
     size_sc s' = (if entries_sc s k = None then size_sc s else size_sc s - 1) \<and>
     (entries_sc s k = None \<longrightarrow> s' = s) \<and> contains_key_sc s' k = Inr False" ..
  then have s': "remove_sc s k = Inr s'"
    "size_sc s' = (if entries_sc s k = None then size_sc s else size_sc s - 1)"
    "entries_sc s k = None \<longrightarrow> s' = s" "contains_key_sc s' k = Inr False" by simp_all
  then have "if entries_sc s k = None then s' = s else size_sc s' = size_sc s - 1" by simp
  with s0 s(1) s'(1,4) have "\<exists>s0 s s'. HashMap_sc capacity hash = Some s0 \<and>
            exec_sc s0 operations = Some (Inr s) \<and> remove_sc s k = Inr s' \<and>
            contains_key_sc s' k = Inr False \<and>
            (if entries_sc s k = None then s' = s else size_sc s' = size_sc s - 1)" by blast
  with oa show ?thesis by (rule conjI)
qed

definition chain_5 :: "(string, int) hash_map_sc" where
  "chain_5 = \<lparr>buckets_sc = [[], [], [], [], []], capacity_sc = 5,
     hash_function_sc = example_hash, size_sc = 0\<rparr>"

definition scenario_remove :: "(string, int) operation list" where
  "scenario_remove = [Put ''x'' 10]"

definition table_5 :: "(string, int) hash_map_oa" where
  "table_5 = \<lparr>buckets_oa = [None, None, None, None, None], capacity_oa = 5,
     hash_function_oa = example_hash, size_oa = 0\<rparr>"

definition table_5_x :: "(string, int) hash_map_oa" where
  "table_5_x = \<lparr>buckets_oa = [Some (HashEntry ''x'' 10), None, None, None, None],
     capacity_oa = 5, hash_function_oa = example_hash, size_oa = 1\<rparr>"

text \<open>
  The chaining scenario of the specification: capacity 5, \<open>put(x, 10)\<close>, \<open>remove(x)\<close>;
  then \<open>contains_key(x)\<close> is false, the size is 0 and the chain is empty.
\<close>

theorem remove_returning_witness:
  "(0::int) \<le> 5 \<and> HashMap_sc 5 example_hash = Some chain_5 \<and>
   exec_sc chain_5 scenario_remove = Some (Inr chain_table) \<and>
   remove_sc chain_table ''x'' = Inr chain_5 \<and>
   contains_key_sc chain_5 ''x'' = Inr False \<and> size_sc chain_5 = 0 \<and>
   buckets_sc chain_5 ! 0 = [] \<and>
   HashMap_oa 5 example_hash = Some table_5 \<and>
   exec_oa table_5 scenario_remove = Some (Inr table_5_x) \<and>
   (\<exists>m'. remove_oa table_5_x ''x'' = Some (Inr m') \<and>
      contains_key_oa m' ''x'' = Some (Inr False) \<and> size_oa m' = size_oa table_5_x - 1)"
proof -
  have h: "(0::int) \<le> 5" by simp
  note w = remove_returning [OF h, of example_hash scenario_remove "''x''"]
  have 1: "HashMap_sc 5 example_hash = Some chain_5"
    by (simp add: chain_5_def eval_sc eval_nat_numeral)
  have 2: "exec_sc chain_5 scenario_remove = Some (Inr chain_table)"
    by (simp add: chain_5_def chain_table_def scenario_remove_def eval_sc)
  have 3: "remove_sc chain_table ''x'' = Inr chain_5"
    by (simp add: chain_5_def chain_table_def eval_sc)
  have 4: "contains_key_sc chain_5 ''x'' = Inr False"
    by (simp add: chain_5_def eval_sc)
  have 5: "size_sc chain_5 = 0" "buckets_sc chain_5 ! 0 = []" by (simp_all add: chain_5_def)
  have e0: "HashMap_oa 5 example_hash = Some table_5"
    by (simp add: table_5_def eval_oa eval_nat_numeral)
  have e1: "exec_oa table_5 scenario_remove = Some (Inr table_5_x)"
    by (simp add: table_5_def table_5_x_def scenario_remove_def eval_oa)
  have e2: "entries_oa table_5_x ''x'' = Some 10"
    by (simp add: table_5_x_def entries_oa_def live_pair_def live_entry_def HashEntry_def)
  from w obtain m0 where m0: "HashMap_oa 5 example_hash = Some m0"
    "\<forall>m. exec_oa m0 scenario_remove = Some (Inr m) \<longrightarrow>
       (if entries_oa m ''x'' = None
        then \<forall>r. remove_oa m ''x'' = Some r \<longrightarrow> r = Inr m
        else \<exists>m'. remove_oa m ''x'' = Some (Inr m') \<and>
               contains_key_oa m' ''x'' = Some (Inr False) \<and> size_oa m' = size_oa m - 1)"
    by (elim conjE exE)
  from m0(1) e0 have "m0 = table_5" by simp
  with m0(2) [rule_format, of table_5_x] e1 e2
  have 6: "\<exists>m'. remove_oa table_5_x ''x'' = Some (Inr m') \<and>
      contains_key_oa m' ''x'' = Some (Inr False) \<and> size_oa m' = size_oa table_5_x - 1"
    by simp
  from h 1 2 3 4 5 e0 e1 6 show ?thesis by simp
qed

end
